theory Spec2Isabelle
  imports Complex_Main "HOL-Library.Multiset" "HOL-Library.Sublist"
begin

section \<open>Text helpers of \<^verbatim>\<open>util/find-missing-names-dblp.py\<close>\<close>

text \<open>
  Python strings are modelled as \<open>string\<close> (lists of \<open>char\<close>), one \<open>char\<close> per code
  point, for ASCII text: code points below 128. On such text
  \<^verbatim>\<open>unicodedata.normalize("NFKC", s)\<close> returns \<open>s\<close>, \<^verbatim>\<open>str.lower\<close> changes the letters
  \<open>A\<close> to \<open>Z\<close> only, and the white space of \<^verbatim>\<open>\s\<close> and of \<^verbatim>\<open>str.strip()\<close> is the
  ten characters of \<open>is_space\<close>. Statements about every string carry the hypothesis
  \<open>ascii\<close>.
\<close>

definition ascii :: "string \<Rightarrow> bool" where
  "ascii s = list_all (\<lambda>c. \<not> digit7 c) s"

definition is_space :: "char \<Rightarrow> bool" where
  "is_space c = (c \<in> set [CHR 0x09, CHR 0x0A, CHR 0x0B, CHR 0x0C, CHR 0x0D,
                            CHR 0x1C, CHR 0x1D, CHR 0x1E, CHR 0x1F, CHR 0x20])"

definition lower_char :: "char \<Rightarrow> char" where
  "lower_char c =
     (let n = (of_char c :: nat) in if 65 \<le> n \<and> n \<le> 90 then char_of (n + 32) else c)"

text \<open>\<^verbatim>\<open>s.lower()\<close>\<close>

definition lower :: "string \<Rightarrow> string" where
  "lower s = map lower_char s"

text \<open>\<^verbatim>\<open>s.strip()\<close>\<close>

definition strip :: "string \<Rightarrow> string" where
  "strip s = rev (dropWhile is_space (rev (dropWhile is_space s)))"

text \<open>\<^verbatim>\<open>unicodedata.normalize("NFKC", s)\<close>, on ASCII text.\<close>

definition normalize_NFKC :: "string \<Rightarrow> string" where
  "normalize_NFKC s = s"

text \<open>\<^verbatim>\<open>re.sub(r"\s+", " ", s)\<close>: every maximal run of white space becomes one space.\<close>

function collapse_ws :: "string \<Rightarrow> string" where
  "collapse_ws [] = []"
| "collapse_ws (c # cs) =
     (if is_space c then CHR '' '' # collapse_ws (dropWhile is_space cs)
      else c # collapse_ws cs)"
  by pat_completeness auto
termination
  by (relation "measure length") (auto simp: less_Suc_eq_le length_dropWhile_le)

text \<open>
  \<^verbatim>\<open>
  def canonicalize(name: str) -> str:
      name = unicodedata.normalize("NFKC", name)
      name = re.sub(r"\s+", " ", name)
      name = name.replace(".", "").lower().strip()
      return name
  \<close>
\<close>

definition canonicalize :: "string \<Rightarrow> string" where
  "canonicalize name =
     strip (lower (filter (\<lambda>c. c \<noteq> CHR ''.'') (collapse_ws (normalize_NFKC name))))"

text \<open>
  The pattern \<^verbatim>\<open>\s*\[.*?\]\s*\<close> of \<open>normalize_input_name\<close>.

  \<open>match_close\<close> is \<^verbatim>\<open>.*?\]\<close> after the opening bracket: the lazy \<^verbatim>\<open>.*?\<close> grows one
  character at a time, stops at the first \<^verbatim>\<open>]\<close>, and cannot pass a line feed (no
  \<^verbatim>\<open>DOTALL\<close>). It returns the text after the closing bracket.

  \<open>match_at\<close> tries the whole pattern at the start of the text: the greedy \<^verbatim>\<open>\s*\<close>
  takes all the white space there (giving some back leaves a white space where \<^verbatim>\<open>\[\<close>
  is wanted), then the bracket, \<open>match_close\<close>, and the greedy trailing \<^verbatim>\<open>\s*\<close>. It
  returns the text after the match.

  \<open>sub_brackets\<close> is \<^verbatim>\<open>re.sub(pattern, "", s)\<close>: scanning from the left, a match is
  dropped and the scan goes on after it; where there is none, the character is kept.
\<close>

fun match_close :: "string \<Rightarrow> string option" where
  "match_close [] = None"
| "match_close (c # cs) =
     (if c = CHR '']'' then Some cs
      else if c = CHR 0x0A then None
      else match_close cs)"

definition match_at :: "string \<Rightarrow> string option" where
  "match_at s =
     (case dropWhile is_space s of
        [] \<Rightarrow> None
      | c # r \<Rightarrow>
          if c = CHR ''['' then
            (case match_close r of
               None \<Rightarrow> None
             | Some t \<Rightarrow> Some (dropWhile is_space t))
          else None)"

lemma match_close_length: "match_close s = Some t \<Longrightarrow> length t < length s"
  by (induction s) (auto split: if_splits)

lemma match_at_length: "match_at s = Some t \<Longrightarrow> length t < length s"
proof -
  assume m: "match_at s = Some t"
  then obtain c r u where d: "dropWhile is_space s = c # r"
    and u: "match_close r = Some u" and t: "t = dropWhile is_space u"
    by (auto simp: match_at_def split: list.splits if_splits option.splits)
  have "length t \<le> length u"
    using t by (simp add: length_dropWhile_le)
  also have "length u < length r"
    using u by (rule match_close_length)
  also have "length r < length (dropWhile is_space s)"
    using d by simp
  also have "length (dropWhile is_space s) \<le> length s"
    by (rule length_dropWhile_le)
  finally show ?thesis .
qed

function sub_brackets :: "string \<Rightarrow> string" where
  "sub_brackets [] = []"
| "sub_brackets (c # cs) =
     (case match_at (c # cs) of
        Some rest \<Rightarrow> sub_brackets rest
      | None \<Rightarrow> c # sub_brackets cs)"
  by pat_completeness auto
termination
  by (relation "measure length") (auto dest: match_at_length)

text \<open>
  \<^verbatim>\<open>
  def normalize_input_name(name: str) -> str:
      return re.sub(r"\s*\[.*?\]\s*", "", name).strip()
  \<close>
\<close>

definition normalize_input_name :: "string \<Rightarrow> string" where
  "normalize_input_name name = strip (sub_brackets name)"

text \<open>A string that \<^verbatim>\<open>strip()\<close> leaves as it is.\<close>

definition stripped :: "string \<Rightarrow> bool" where
  "stripped s = (s = [] \<or> (\<not> is_space (hd s) \<and> \<not> is_space (last s)))"

text \<open>Two adjacent spaces somewhere in a string.\<close>

fun double_space :: "string \<Rightarrow> bool" where
  "double_space (a # b # r) = ((a = CHR '' '' \<and> b = CHR '' '') \<or> double_space (b # r))"
| "double_space _ = False"

section \<open>The feedback controller\<close>

text \<open>
  Python's floats are modelled as the real numbers: rounding is not modelled.
  \<^verbatim>\<open>
  class PIDController:
      def __init__(self, kp, ki, kd, setpoint):
          self.kp = kp; self.ki = ki; self.kd = kd
          self.setpoint = setpoint
          self.integral = 0.0
          self.prev_error = None
          self.lock = threading.Lock()

      def update(self, measured_value):
          with self.lock:
              error = self.setpoint - measured_value
              self.integral += error
              derivative = 0.0 if self.prev_error is None else error - self.prev_error
              self.prev_error = error
              return self.kp * error + self.ki * self.integral + self.kd * derivative
  \<close>
  \<open>update\<close> returns the signal and the controller as the call leaves it. The lock makes
  each call one step; \<open>updates\<close> is a sequence of calls, one after the other.
\<close>

record PIDController =
  kp :: real
  ki :: real
  kd :: real
  setpoint :: real
  integral :: real
  prev_error :: "real option"

definition PIDController_init :: "real \<Rightarrow> real \<Rightarrow> real \<Rightarrow> real \<Rightarrow> PIDController" where
  "PIDController_init p i d sp =
     \<lparr>kp = p, ki = i, kd = d, setpoint = sp, integral = 0, prev_error = None\<rparr>"

definition update :: "PIDController \<Rightarrow> real \<Rightarrow> real \<times> PIDController" where
  "update self measured_value =
     (let error = setpoint self - measured_value;
          self = self\<lparr>integral := integral self + error\<rparr>;
          derivative = (case prev_error self of None \<Rightarrow> 0 | Some p \<Rightarrow> error - p);
          self = self\<lparr>prev_error := Some error\<rparr>
      in (kp self * error + ki self * integral self + kd self * derivative, self))"


text \<open>The pacing delay of \<open>process_batch\<close>: \<^verbatim>\<open>max(0.1, 1.0 + sleep_adjustment)\<close>.\<close>

definition sleep_time :: "real \<Rightarrow> real" where
  "sleep_time sleep_adjustment = max 0.1 (1.0 + sleep_adjustment)"

section \<open>The DBLP lookup of one name\<close>

text \<open>
  The values \<^verbatim>\<open>response.json()\<close> returns. A \<open>JObj\<close> holds the dict's items, one pair for
  each key; of a number only its truth value is used.
\<close>

datatype json = JNull | JBool bool | JNum int | JStr string | JArr "json list"
  | JObj "(string \<times> json) list"

text \<open>An element of the tree \<^verbatim>\<open>ET.fromstring\<close> returns.\<close>

datatype xml = Element (tag: string) (attrib: "(string \<times> string) list")
  (elem_text: "string option") (children: "xml list")

text \<open>
  What \<^verbatim>\<open>requests.get\<close> does: it raises (no connection, a timeout), or it returns a
  response with a status code and a body. The body is given as parsed, \<open>None\<close> where
  the parser (\<^verbatim>\<open>response.json()\<close>, \<^verbatim>\<open>ET.fromstring\<close>) raises.
\<close>

datatype 'a http_result = RequestFailed | Response nat 'a

text \<open>
  Everything outside the program: the search endpoint by query, the per-author record
  by pid path (\<^verbatim>\<open>https://dblp.org/pid/<pid_path>.xml\<close>), and the standard library's
  \<^verbatim>\<open>urlparse(u).path\<close>, \<open>None\<close> where \<^verbatim>\<open>urlparse\<close> raises.
\<close>

record world =
  search_author_api :: "string \<Rightarrow> json option http_result"
  pid_xml :: "string \<Rightarrow> xml option http_result"
  urlparse_path :: "string \<Rightarrow> string option"

datatype verdict = EXACT | ALIAS | NOT_FOUND | ERROR

datatype exn = RequestException | HTTPError | JSONDecodeError | AttributeError | TypeError
  | IndexError

text \<open>\<^verbatim>\<open>response.raise_for_status()\<close> raises for the status codes 400 to 599.\<close>

definition raise_for_status :: "nat \<Rightarrow> bool" where
  "raise_for_status status_code = (400 \<le> status_code \<and> status_code < 600)"

text \<open>\<^verbatim>\<open>d.get(key, dflt)\<close>: only a dict has the method.\<close>

fun py_get :: "json \<Rightarrow> string \<Rightarrow> json \<Rightarrow> exn + json" where
  "py_get (JObj kvs) key dflt = Inr (case map_of kvs key of None \<Rightarrow> dflt | Some v \<Rightarrow> v)"
| "py_get _ key dflt = Inl AttributeError"

fun truthy :: "json \<Rightarrow> bool" where
  "truthy JNull = False"
| "truthy (JBool b) = b"
| "truthy (JNum n) = (n \<noteq> 0)"
| "truthy (JStr s) = (s \<noteq> [])"
| "truthy (JArr xs) = (xs \<noteq> [])"
| "truthy (JObj kvs) = (kvs \<noteq> [])"

text \<open>
  \<^verbatim>\<open>for hit in hits\<close>: a list gives its elements, a dict its keys, a string its
  characters; nothing else can be iterated.
\<close>

fun py_iter :: "json \<Rightarrow> exn + json list" where
  "py_iter (JArr xs) = Inr xs"
| "py_iter (JObj kvs) = Inr (map (\<lambda>kv. JStr (fst kv)) kvs)"
| "py_iter (JStr s) = Inr (map (\<lambda>c. JStr [c]) s)"
| "py_iter _ = Inl TypeError"

text \<open>
  \<^verbatim>\<open>
  def extract_pid_path(dblp_pid_url: str) -> Optional[str]:
      try:
          path = urlparse(dblp_pid_url).path
          if path.startswith("/pid/"):
              return path[len("/pid/"):]
      except Exception as e:
          print(f"Failed to parse PID from {dblp_pid_url}: {e}")
      return None
  \<close>
  The argument is the hit's \<^verbatim>\<open>url\<close> value, whatever the service sent; \<^verbatim>\<open>urlparse\<close>
  raises on a value that is not a string.
\<close>

fun extract_pid_path :: "world \<Rightarrow> json \<Rightarrow> string option" where
  "extract_pid_path w (JStr dblp_pid_url) =
     (case urlparse_path w dblp_pid_url of
        None \<Rightarrow> None
      | Some path \<Rightarrow> if take 5 path = ''/pid/'' then Some (drop 5 path) else None)"
| "extract_pid_path w _ = None"

text \<open>
  \<^verbatim>\<open>root.findall(".//author")\<close>: the elements below the root, at every depth, in document
  order, whose tag is \<^verbatim>\<open>author\<close>.
\<close>

fun descendants :: "xml \<Rightarrow> xml list" where
  "descendants (Element t a x cs) = concat (map (\<lambda>c. c # descendants c) cs)"

definition findall_author :: "xml \<Rightarrow> xml list" where
  "findall_author tree = filter (\<lambda>e. tag e = ''author'') (descendants tree)"

text \<open>
  \<^verbatim>\<open>
  def has_alias_match(dblp_pid_url: str, normalized_query: str) -> bool:
      pid_path = extract_pid_path(dblp_pid_url)
      if not pid_path:
          return False
      try:
          xml_url = f"https://dblp.org/pid/{pid_path}.xml"
          response = requests.get(xml_url, timeout=10)
          response.raise_for_status()
          root = ET.fromstring(response.content)
          target_pid = pid_path
          canon_query = canonicalize(normalized_query)
          for author in root.findall(".//author"):
              if author.attrib.get("pid") == target_pid:
                  if canonicalize(author.text or "") == canon_query:
                      return True
      except Exception as e:
          print(f"Error fetching alias info from {dblp_pid_url}: {e}")
      return False
  \<close>
\<close>

definition has_alias_match :: "world \<Rightarrow> json \<Rightarrow> string \<Rightarrow> bool" where
  "has_alias_match w dblp_pid_url normalized_query =
     (case extract_pid_path w dblp_pid_url of
        None \<Rightarrow> False
      | Some pid_path \<Rightarrow>
          if pid_path = [] then False
          else
            (case pid_xml w pid_path of
               RequestFailed \<Rightarrow> False
             | Response status_code content \<Rightarrow>
                 if raise_for_status status_code then False
                 else
                   (case content of
                      None \<Rightarrow> False
                    | Some tree \<Rightarrow>
                        list_ex
                          (\<lambda>author.
                             map_of (attrib author) ''pid'' = Some pid_path \<and>
                             canonicalize (case elem_text author of None \<Rightarrow> [] | Some t \<Rightarrow> t) =
                               canonicalize normalized_query)
                          (findall_author tree))))"

text \<open>
  \<^verbatim>\<open>
  def dblp_author_search(name: str) -> Tuple[str, str]:
      normalized = normalize_input_name(name)
      canon_query = canonicalize(normalized)
      base_url = "https://dblp.org/search/author/api"
      params = {"q": normalized, "format": "json"}
      try:
          response = requests.get(base_url, params=params, timeout=10)
          if response.status_code == 429:
              raise requests.exceptions.RequestException("HTTP 429: Too Many Requests")
          response.raise_for_status()
          data = response.json()
          hits = data.get("result", {}).get("hits", {}).get("hit", [])
          found_exact = False
          found_alias = False
          for hit in hits:
              info = hit.get("info", {})
              author_name = info.get("author", "")
              dblp_url = info.get("url", "")
              if canonicalize(author_name) == canon_query:
                  found_exact = True
              elif dblp_url and has_alias_match(dblp_url, normalized):
                  found_alias = True
          if found_exact:
              return name, "EXACT"
          elif found_alias:
              return name, "ALIAS"
          else:
              return name, "NOT_FOUND"
      except Exception as e:
          return name, "ERROR"
  \<close>
  \<open>hits_of\<close> is the chain of \<^verbatim>\<open>get\<close> calls and the start of the iteration;
  \<open>hit_fields\<close> is the three \<^verbatim>\<open>get\<close> calls of the loop body; \<open>scan_hit\<close> is the loop
  body on the pair \<open>(found_exact, found_alias)\<close> (\<open>canonicalize\<close> raises on a value that
  is not a string); \<open>scan_hits\<close> is the loop; \<open>search_and_match\<close> is the body of the
  \<^verbatim>\<open>try\<close>, \<open>Inl\<close> where it raises.
\<close>

definition hits_of :: "json \<Rightarrow> exn + json list" where
  "hits_of data =
     (case py_get data ''result'' (JObj []) of
        Inl e \<Rightarrow> Inl e
      | Inr result \<Rightarrow>
          (case py_get result ''hits'' (JObj []) of
             Inl e \<Rightarrow> Inl e
           | Inr hs \<Rightarrow>
               (case py_get hs ''hit'' (JArr []) of
                  Inl e \<Rightarrow> Inl e
                | Inr hits \<Rightarrow> py_iter hits)))"

definition hit_fields :: "json \<Rightarrow> exn + (json \<times> json)" where
  "hit_fields hit =
     (case py_get hit ''info'' (JObj []) of
        Inl e \<Rightarrow> Inl e
      | Inr info \<Rightarrow>
          (case py_get info ''author'' (JStr []) of
             Inl e \<Rightarrow> Inl e
           | Inr author_name \<Rightarrow>
               (case py_get info ''url'' (JStr []) of
                  Inl e \<Rightarrow> Inl e
                | Inr dblp_url \<Rightarrow> Inr (author_name, dblp_url))))"

definition scan_hit ::
  "world \<Rightarrow> string \<Rightarrow> string \<Rightarrow> json \<Rightarrow> bool \<times> bool \<Rightarrow> exn + (bool \<times> bool)" where
  "scan_hit w normalized canon_query hit found =
     (case hit_fields hit of
        Inl e \<Rightarrow> Inl e
      | Inr (author_name, dblp_url) \<Rightarrow>
          (case author_name of
             JStr a \<Rightarrow>
               if canonicalize a = canon_query then Inr (True, snd found)
               else if truthy dblp_url \<and> has_alias_match w dblp_url normalized
                 then Inr (fst found, True)
               else Inr found
           | _ \<Rightarrow> Inl TypeError))"

fun scan_hits ::
  "world \<Rightarrow> string \<Rightarrow> string \<Rightarrow> json list \<Rightarrow> bool \<times> bool \<Rightarrow> exn + (bool \<times> bool)" where
  "scan_hits w normalized canon_query [] found = Inr found"
| "scan_hits w normalized canon_query (hit # hits) found =
     (case scan_hit w normalized canon_query hit found of
        Inl e \<Rightarrow> Inl e
      | Inr found' \<Rightarrow> scan_hits w normalized canon_query hits found')"

definition search_and_match :: "world \<Rightarrow> string \<Rightarrow> string \<Rightarrow> exn + verdict" where
  "search_and_match w normalized canon_query =
     (case search_author_api w normalized of
        RequestFailed \<Rightarrow> Inl RequestException
      | Response status_code body \<Rightarrow>
          if status_code = 429 then Inl RequestException
          else if raise_for_status status_code then Inl HTTPError
          else
            (case body of
               None \<Rightarrow> Inl JSONDecodeError
             | Some data \<Rightarrow>
                 (case hits_of data of
                    Inl e \<Rightarrow> Inl e
                  | Inr hits \<Rightarrow>
                      (case scan_hits w normalized canon_query hits (False, False) of
                         Inl e \<Rightarrow> Inl e
                       | Inr (found_exact, found_alias) \<Rightarrow>
                           if found_exact then Inr EXACT
                           else if found_alias then Inr ALIAS
                           else Inr NOT_FOUND))))"

definition dblp_author_search :: "world \<Rightarrow> string \<Rightarrow> string \<times> verdict" where
  "dblp_author_search w name =
     (let normalized = normalize_input_name name;
          canon_query = canonicalize normalized
      in case search_and_match w normalized canon_query of
           Inl e \<Rightarrow> (name, ERROR)
         | Inr v \<Rightarrow> (name, v))"

text \<open>
  For stating what the loop decides. A hit is well formed when the loop body does not
  raise on it: it is a dict, its \<^verbatim>\<open>info\<close> (when present) is a dict, and the
  \<^verbatim>\<open>author\<close> of that (when present) is a string. \<open>exact_match\<close> and \<open>alias_match\<close> are
  the two conditions of the loop body.
\<close>

definition well_formed_hit :: "json \<Rightarrow> bool" where
  "well_formed_hit hit =
     (case hit_fields hit of Inr (JStr a, dblp_url) \<Rightarrow> True | _ \<Rightarrow> False)"

definition exact_match :: "string \<Rightarrow> json \<Rightarrow> bool" where
  "exact_match canon_query hit =
     (case hit_fields hit of
        Inr (JStr a, dblp_url) \<Rightarrow> canonicalize a = canon_query
      | _ \<Rightarrow> False)"

definition alias_match :: "world \<Rightarrow> string \<Rightarrow> json \<Rightarrow> bool" where
  "alias_match w normalized hit =
     (case hit_fields hit of
        Inr (author_name, dblp_url) \<Rightarrow> truthy dblp_url \<and> has_alias_match w dblp_url normalized
      | _ \<Rightarrow> False)"

section \<open>The worker loop and the files\<close>

text \<open>
  A row of the input file, as \<^verbatim>\<open>csv.DictReader\<close> gives it: the \<^verbatim>\<open>name\<close> column and the
  other columns. The three files of a run: the progress ledger as its text, the output
  file as the rows \<^verbatim>\<open>csv.DictReader\<close> reads back from it (the header apart), the log as
  its lines; \<open>None\<close> is a file that does not exist.
\<close>

record row =
  row_name :: string
  row_fields :: "(string \<times> string) list"

record files =
  progress_file :: "string option"
  output_csv :: "row list option"
  log_file :: "string list option"

text \<open>
  The state of \<open>process_batch\<close>: the names handed to \<open>dblp_author_search\<close>, the three
  files, the two sets, the two counters, the controller, and the delays slept.
\<close>

record batch =
  queried :: "string list"
  out_log :: "string list"
  out_csv :: "row list"
  progress :: "string option"
  seen :: "string set"
  already_output :: "string set"
  total_requests :: nat
  total_errors :: nat
  pid_controller :: PIDController
  sleeps :: "real list"

fun verdict_str :: "verdict \<Rightarrow> string" where
  "verdict_str EXACT = ''EXACT''"
| "verdict_str ALIAS = ''ALIAS''"
| "verdict_str NOT_FOUND = ''NOT_FOUND''"
| "verdict_str ERROR = ''ERROR''"

text \<open>
  Reading the progress ledger:
  \<^verbatim>\<open>seen.update(line.strip() for line in f if line.strip())\<close>. The file is read in text
  mode, where a line ends at a line feed or a carriage return; the empty pieces this
  gives (between the two characters of a CR LF, after the last line) are dropped with
  the blank lines.
\<close>

definition is_break :: "char \<Rightarrow> bool" where
  "is_break c = (c = CHR 0x0A \<or> c = CHR 0x0D)"

fun file_lines :: "string \<Rightarrow> string \<Rightarrow> string list" where
  "file_lines cur [] = (if cur = [] then [] else [cur])"
| "file_lines cur (c # cs) =
     (if is_break c then cur # file_lines [] cs else file_lines (cur @ [c]) cs)"

definition read_progress :: "string \<Rightarrow> string list" where
  "read_progress content = filter (\<lambda>l. l \<noteq> []) (map strip (file_lines [] content))"

text \<open>
  \<^verbatim>\<open>as_completed(futures)\<close> yields the futures in the order they complete, which the
  program does not control. The order is a parameter: the schedule names, at each step,
  which of the futures still pending completes next (by position, modulo their number;
  in submission order once the schedule is used up).
\<close>

fun as_completed :: "nat list \<Rightarrow> 'a list \<Rightarrow> 'a list" where
  "as_completed sched [] = []"
| "as_completed [] (f # fs) = f # fs"
| "as_completed (k # sched) (f # fs) =
     (let i = k mod length (f # fs)
      in (f # fs) ! i # as_completed sched (take i (f # fs) @ drop (Suc i) (f # fs)))"

text \<open>
  A future: the row it was submitted for, and what \<^verbatim>\<open>future.result()\<close> does: it returns
  the pair of \<open>dblp_author_search\<close>, or raises (\<open>Inl\<close>, with the text of the exception).

  \<open>handle_result\<close> is the body of the loop over the completed futures:
  \<^verbatim>\<open>
          for future in as_completed(futures):
              row = futures[future]
              name = row["name"]
              try:
                  name, result = future.result()
                  with log_lock:
                      out_log.write(f"{name} -> {result}\n")
                      out_log.flush()
                  if result == "NOT_FOUND" and name not in already_output:
                      with csv_lock:
                          writer.writerow(row)
                          out_csv.flush()
                          already_output.add(name)
                  if result == "ERROR":
                      total_errors += 1
              except Exception as e:
                  with log_lock:
                      out_log.write(f"{name} -> EXCEPTION: {e}\n")
                      out_log.flush()
                  total_errors += 1
              with open(progress_file, "a", encoding='utf-8') as f:
                  f.write(f"{name}\n")
              seen.add(name)
              total_requests += 1
              if total_requests > 0:
                  error_rate = total_errors / total_requests
                  sleep_adjustment = pid_controller.update(error_rate)
                  sleep_time = max(0.1, 1.0 + sleep_adjustment)
                  time.sleep(sleep_time)
  \<close>
\<close>

type_synonym future = "row \<times> (string + string \<times> verdict)"

definition handle_result :: "future \<Rightarrow> batch \<Rightarrow> batch" where
  "handle_result future st =
     (let row = fst future;
          name = row_name row;
          (name, st) =
            (case snd future of
               Inr (name, result) \<Rightarrow>
                 (let st = st\<lparr>out_log := out_log st @ [name @ '' -> '' @ verdict_str result]\<rparr>;
                      st = (if result = NOT_FOUND \<and> name \<notin> already_output st
                            then st\<lparr>out_csv := out_csv st @ [row],
                                    already_output := insert name (already_output st)\<rparr>
                            else st);
                      st = (if result = ERROR then st\<lparr>total_errors := total_errors st + 1\<rparr>
                            else st)
                  in (name, st))
             | Inl e \<Rightarrow>
                 (name, st\<lparr>out_log := out_log st @ [name @ '' -> EXCEPTION: '' @ e],
                           total_errors := total_errors st + 1\<rparr>));
          st = st\<lparr>progress :=
                    Some ((case progress st of None \<Rightarrow> [] | Some t \<Rightarrow> t) @ name @ [CHR 0x0A])\<rparr>;
          st = st\<lparr>seen := insert name (seen st), total_requests := total_requests st + 1\<rparr>
      in if total_requests st > 0 then
           (let error_rate = real (total_errors st) / real (total_requests st);
                (sleep_adjustment, pid) = update (pid_controller st) error_rate
            in st\<lparr>pid_controller := pid, sleeps := sleeps st @ [sleep_time sleep_adjustment]\<rparr>)
         else st)"

text \<open>
  \<^verbatim>\<open>
  def process_batch(rows, output_csv, progress_file, log_file, lock, seen,
                    already_output, pid_controller, max_workers):
      total_requests = 0
      total_errors = 0
      with ThreadPoolExecutor(max_workers=max_workers) as executor, \
           open(output_csv, "a", newline='', encoding='utf-8') as out_csv, \
           open(log_file, "a", encoding='utf-8') as out_log:
          writer = csv.DictWriter(out_csv, fieldnames=rows[0].keys())
          ...
          futures = {
              executor.submit(dblp_author_search, row["name"]): row
              for row in rows if row["name"] not in seen
          }
          for future in as_completed(futures): ...
  \<close>
  The \<open>i\<close>-th task submitted runs \<open>dblp_author_search\<close> against \<open>worlds i\<close>: the service
  as it answers that task. \<^verbatim>\<open>rows[0]\<close> raises on an empty list.
\<close>

definition process_batch ::
  "(nat \<Rightarrow> world) \<Rightarrow> nat list \<Rightarrow> row list \<Rightarrow> files \<Rightarrow> string set \<Rightarrow> string set \<Rightarrow> PIDController
     \<Rightarrow> exn + batch" where
  "process_batch worlds sched rows fs seen0 already_output0 pid =
     (if rows = [] then Inl IndexError
      else
        (let st = \<lparr>queried = [],
                   out_log = (case log_file fs of None \<Rightarrow> [] | Some ls \<Rightarrow> ls),
                   out_csv = (case output_csv fs of None \<Rightarrow> [] | Some rs \<Rightarrow> rs),
                   progress = progress_file fs,
                   seen = seen0, already_output = already_output0,
                   total_requests = 0, total_errors = 0,
                   pid_controller = pid, sleeps = []\<rparr>;
             submitted = filter (\<lambda>row. row_name row \<notin> seen st) rows;
             futures = map (\<lambda>(i, row). (row, Inr (dblp_author_search (worlds i) (row_name row))))
                         (enumerate 0 submitted);
             st = st\<lparr>queried := map row_name submitted\<rparr>
         in Inr (foldl (\<lambda>st future. handle_result future st) st (as_completed sched futures))))"

text \<open>
  \<^verbatim>\<open>
  def find_missing_names(input_csv, output_csv, log_file, max_workers):
      progress_file = input_csv + ".progress"
      seen = set()
      already_output = set()
      lock = threading.Lock()
      try:
          with open(progress_file, encoding="utf-8") as f:
              seen.update(line.strip() for line in f if line.strip())
      except FileNotFoundError:
          pass
      try:
          with open(output_csv, newline="", encoding="utf-8") as f:
              reader = csv.DictReader(f)
              for row in reader:
                  already_output.add(row["name"])
      except FileNotFoundError:
          pass
      with open(input_csv, newline='', encoding='utf-8') as f:
          reader = list(csv.DictReader(f))
      if not reader:
          print("No data.")
          return
      if not os.path.exists(output_csv):
          with open(output_csv, "w", newline='', encoding='utf-8') as f:
              writer = csv.DictWriter(f, fieldnames=reader[0].keys())
              writer.writeheader()
      pid = PIDController(kp=5.0, ki=0.5, kd=0.2, setpoint=0.01)
      process_batch(reader, output_csv, progress_file, log_file, lock, seen,
                    already_output, pid, max_workers)
  \<close>
  The result is the files as the run leaves them, and the names the run handed to
  \<open>dblp_author_search\<close>.
\<close>

definition find_missing_names ::
  "(nat \<Rightarrow> world) \<Rightarrow> nat list \<Rightarrow> row list \<Rightarrow> files \<Rightarrow> exn + (files \<times> string list)" where
  "find_missing_names worlds sched reader fs =
     (let seen0 = (case progress_file fs of None \<Rightarrow> {} | Some t \<Rightarrow> set (read_progress t));
          already_output0 = (case output_csv fs of None \<Rightarrow> {} | Some rs \<Rightarrow> set (map row_name rs))
      in if reader = [] then Inr (fs, [])
         else
           (let fs = (if output_csv fs = None then fs\<lparr>output_csv := Some []\<rparr> else fs);
                pid = PIDController_init 5.0 0.5 0.2 0.01
            in case process_batch worlds sched reader fs seen0 already_output0 pid of
                 Inl e \<Rightarrow> Inl e
               | Inr st \<Rightarrow>
                   Inr (\<lparr>progress_file = progress st, output_csv = Some (out_csv st),
                         log_file = Some (out_log st)\<rparr>, queried st)))"

text \<open>
  Resumed runs over the same files: each run has its own input rows, its own answers of
  the service and its own completion order, and starts from the files the run before it
  left. The result is the files after the last run and the names handed to
  \<open>dblp_author_search\<close> over all the runs.
\<close>

record run =
  run_worlds :: "nat \<Rightarrow> world"
  run_sched :: "nat list"
  run_input :: "row list"

fun resumed_runs :: "files \<Rightarrow> run list \<Rightarrow> exn + (files \<times> string list)" where
  "resumed_runs fs [] = Inr (fs, [])"
| "resumed_runs fs (r # rs) =
     (case find_missing_names (run_worlds r) (run_sched r) (run_input r) fs of
        Inl e \<Rightarrow> Inl e
      | Inr (fs1, q1) \<Rightarrow>
          (case resumed_runs fs1 rs of
             Inl e \<Rightarrow> Inl e
           | Inr (fs2, q2) \<Rightarrow> Inr (fs2, q1 @ q2)))"

text \<open>The number of lines of a text file: its line feeds.\<close>

definition line_count :: "string \<Rightarrow> nat" where
  "line_count content = length (filter (\<lambda>c. c = CHR 0x0A) content)"

text \<open>
  A name the progress ledger gives back as it was written: ASCII, not empty, no white
  space at either end, no line break inside.
\<close>

definition ledger_name :: "string \<Rightarrow> bool" where
  "ledger_name n = (ascii n \<and> n \<noteq> [] \<and> stripped n \<and> list_all (\<lambda>c. \<not> is_break c) n)"

text \<open>
  For stating what a run does. The text of the ledger and the rows of the output file,
  empty when the file does not exist; the entry \<open>handle_result\<close> writes for a name;
  the rows \<open>process_batch\<close> submits (its filter), and the futures it builds for them;
  a future as \<open>process_batch\<close> builds it (it returns the name of its own row); the loop
  over the completed futures.
\<close>

definition ledger_text :: "string option \<Rightarrow> string" where
  "ledger_text p = (case p of None \<Rightarrow> [] | Some t \<Rightarrow> t)"

definition output_rows :: "files \<Rightarrow> row list" where
  "output_rows fs = (case output_csv fs of None \<Rightarrow> [] | Some rs \<Rightarrow> rs)"

definition entry :: "string \<Rightarrow> string" where
  "entry n = n @ [CHR 0x0A]"

definition submitted_rows :: "string set \<Rightarrow> row list \<Rightarrow> row list" where
  "submitted_rows seen0 rows = filter (\<lambda>row. row_name row \<notin> seen0) rows"

definition futures_of :: "(nat \<Rightarrow> world) \<Rightarrow> row list \<Rightarrow> future list" where
  "futures_of worlds submitted =
     map (\<lambda>(i, row). (row, Inr (dblp_author_search (worlds i) (row_name row))))
       (enumerate 0 submitted)"

definition sound_future :: "future \<Rightarrow> bool" where
  "sound_future f = (\<exists>v. snd f = Inr (row_name (fst f), v))"

abbreviation drain :: "batch \<Rightarrow> future list \<Rightarrow> batch" where
  "drain st futures \<equiv> foldl (\<lambda>st future. handle_result future st) st futures"

text \<open>Worlds and rows for the concrete runs below.\<close>

definition no_files :: files where
  "no_files = \<lparr>progress_file = None, output_csv = None, log_file = None\<rparr>"

definition offline :: world where
  "offline = \<lparr>search_author_api = (\<lambda>q. RequestFailed), pid_xml = (\<lambda>p. RequestFailed),
     urlparse_path = (\<lambda>u. None)\<rparr>"

definition no_hits :: world where
  "no_hits = \<lparr>search_author_api = (\<lambda>q. Response 200 (Some (JObj []))),
     pid_xml = (\<lambda>p. RequestFailed), urlparse_path = (\<lambda>u. None)\<rparr>"

definition named :: "string \<Rightarrow> row" where
  "named n = \<lparr>row_name = n, row_fields = []\<rparr>"

definition dblp_reply :: "json list \<Rightarrow> json" where
  "dblp_reply hits = JObj [(''result'', JObj [(''hits'', JObj [(''hit'', JArr hits)])])]"

definition author_hit :: "string \<Rightarrow> string \<Rightarrow> json" where
  "author_hit author url = JObj [(''info'', JObj [(''author'', JStr author), (''url'', JStr url)])]"

definition person_record :: "string \<Rightarrow> string list \<Rightarrow> xml" where
  "person_record pid names =
     Element ''dblpperson'' [(''pid'', pid)] None
       [Element ''person'' [] None
          (map (\<lambda>n. Element ''author'' [(''pid'', pid)] (Some n) []) names)]"

definition serving :: "json list \<Rightarrow> world" where
  "serving hits =
     \<lparr>search_author_api = (\<lambda>q. Response 200 (Some (dblp_reply hits))),
      pid_xml = (\<lambda>p. if p = ''12/345'' then Response 200 (Some (person_record ''12/345'' [''C. Lee'', ''Carol Lee'']))
                      else Response 404 None),
      urlparse_path = (\<lambda>u. if take 16 u = ''https://dblp.org'' then Some (drop 16 u) else Some u)\<rparr>"


definition always :: "world \<Rightarrow> nat \<Rightarrow> world" where
  "always w i = w"



definition first_run :: run where
  "first_run = \<lparr>run_worlds = always offline, run_sched = [1],
     run_input = [named ''Alice Smith'', named ''Bob Jones'']\<rparr>"

definition second_run :: run where
  "second_run = \<lparr>run_worlds = always no_hits, run_sched = [],
     run_input = [named ''Bob Jones'', named ''Carol Lee'']\<rparr>"

section \<open>Characters, white space and \<open>collapse_ws\<close>\<close>

lemma is_space_code: "is_space c = (of_char c \<in> set [9, 10, 11, 12, 13, 28, 29, 30, 31, 32 :: nat])"
proof -
  have e: "\<And>d. (c = d) = (of_char c = (of_char d :: nat))" by simp
  show ?thesis unfolding is_space_def by (simp add: e del: of_char_eq_iff)
qed

lemma of_char_lower: "(of_char (lower_char c) :: nat) = (if 65 \<le> (of_char c :: nat) \<and> (of_char c :: nat) \<le> 90 then of_char c + 32 else of_char c)"
  by (simp add: lower_char_def Let_def)

lemma lower_char_space [simp]: "is_space (lower_char c) = is_space c"
  by (simp add: is_space_code of_char_lower)

lemma lower_char_idem [simp]: "lower_char (lower_char c) = lower_char c"
proof -
  have "(of_char (lower_char (lower_char c)) :: nat) = of_char (lower_char c)"
    by (simp add: of_char_lower)
  then show ?thesis by simp
qed

lemma lower_char_eq_dot [simp]: "(lower_char c = CHR ''.'') = (c = CHR ''.'')"
proof -
  have "(lower_char c = CHR ''.'') = ((of_char (lower_char c) :: nat) = of_char (CHR ''.''))"
    by (simp only: of_char_eq_iff)
  also have "\<dots> = ((of_char c :: nat) = of_char (CHR ''.''))"
    by (auto simp: of_char_lower)
  also have "\<dots> = (c = CHR ''.'')"
    by (simp only: of_char_eq_iff)
  finally show ?thesis .
qed

lemma lower_char_eq_space [simp]: "(lower_char c = CHR '' '') = (c = CHR '' '')"
proof -
  have "(lower_char c = CHR '' '') = ((of_char (lower_char c) :: nat) = of_char (CHR '' ''))"
    by (simp only: of_char_eq_iff)
  also have "\<dots> = ((of_char c :: nat) = of_char (CHR '' ''))"
    by (auto simp: of_char_lower)
  also have "\<dots> = (c = CHR '' '')"
    by (simp only: of_char_eq_iff)
  finally show ?thesis .
qed

lemma space_is_space [simp]: "is_space (CHR '' '')"
  by (simp add: is_space_def)

lemma dropWhile_space_head: "dropWhile is_space cs = d # ds \<Longrightarrow> \<not> is_space d"
  by (metis hd_dropWhile list.sel(1) list.distinct(1))

lemma double_space_tail: "\<not> double_space (c # cs) \<Longrightarrow> \<not> double_space cs"
  by (cases cs) auto

lemma collapse_ws_set: "set (collapse_ws s) \<subseteq> insert (CHR '' '') (set s)"
proof (induction s rule: collapse_ws.induct)
  case 1
  show ?case by simp
next
  case (2 c cs)
  have "set (dropWhile is_space cs) \<subseteq> set cs"
    using set_dropWhileD by fastforce
  with 2 show ?case by (cases "is_space c") auto
qed

lemma collapse_ws_spaces: "c \<in> set (collapse_ws s) \<Longrightarrow> is_space c \<Longrightarrow> c = CHR '' ''"
  by (induction s rule: collapse_ws.induct) (auto split: if_splits)

lemma collapse_ws_no_double: "\<not> double_space (collapse_ws s)"
proof (induction s rule: collapse_ws.induct)
  case 1
  show ?case by simp
next
  case (2 c cs)
  show ?case
  proof (cases "is_space c")
    case True
    note sp = this
    show ?thesis
    proof (cases "dropWhile is_space cs")
      case Nil
      with sp have "collapse_ws (c # cs) = [CHR '' '']"
        by (simp del: dropWhile_eq_Nil_conv)
      then show ?thesis by simp
    next
      case (Cons d ds)
      then have "\<not> is_space d" by (rule dropWhile_space_head)
      then have "d \<noteq> CHR '' ''" "\<not> is_space d" by auto
      with sp Cons 2 show ?thesis by auto
    qed
  next
    case False
    then have "c \<noteq> CHR '' ''" by auto
    with False 2 show ?thesis by (cases "collapse_ws cs") auto
  qed
qed

lemma collapse_ws_id:
  "\<forall>c\<in>set s. is_space c \<longrightarrow> c = CHR '' '' \<Longrightarrow> \<not> double_space s \<Longrightarrow> collapse_ws s = s"
proof (induction s rule: collapse_ws.induct)
  case 1
  show ?case by simp
next
  case (2 c cs)
  have nd: "\<not> double_space cs" using 2(4) by (rule double_space_tail)
  have sp: "\<forall>x\<in>set cs. is_space x \<longrightarrow> x = CHR '' ''" using 2(3) by simp
  show ?case
  proof (cases "is_space c")
    case True
    with 2(3) have c: "c = CHR '' ''" by simp
    have dw: "dropWhile is_space cs = cs"
    proof (cases cs)
      case Nil
      then show ?thesis by simp
    next
      case (Cons d ds)
      with 2(4) c have "d \<noteq> CHR '' ''" by auto
      with sp Cons have "\<not> is_space d" by auto
      with Cons show ?thesis by simp
    qed
    have "collapse_ws (dropWhile is_space cs) = dropWhile is_space cs"
      using True sp nd unfolding dw by (rule 2(1) [unfolded dw])
    then have "collapse_ws cs = cs" unfolding dw .
    moreover have "collapse_ws (c # cs) = CHR '' '' # collapse_ws (dropWhile is_space cs)"
      using True by simp
    ultimately show ?thesis unfolding dw c by simp
  next
    case False
    then have "collapse_ws cs = cs" using sp nd by (rule 2(2))
    with False show ?thesis by simp
  qed
qed

lemma collapse_ws_snoc: "\<not> is_space c \<Longrightarrow> collapse_ws (s @ [c]) = collapse_ws s @ [c]"
proof (induction s rule: collapse_ws.induct)
  case 1
  then show ?case by simp
next
  case (2 d ds)
  have "dropWhile is_space (ds @ [c]) = dropWhile is_space ds @ [c]"
    using 2(3) by (induction ds) auto
  with 2 show ?case by auto
qed

section \<open>\<open>strip\<close> and the value of \<open>canonicalize\<close>\<close>

lemma strip_stripped: "stripped (strip s)"
proof -
  let ?a = "dropWhile is_space s"
  let ?b = "dropWhile is_space (rev ?a)"
  show ?thesis
  proof (cases "?b = []")
    case True
    then show ?thesis by (simp add: stripped_def strip_def del: dropWhile_eq_Nil_conv)
  next
    case False
    then have h: "\<not> is_space (hd ?b)" by (rule hd_dropWhile)
    have ne: "?a \<noteq> []"
    proof
      assume "?a = []"
      then have "?b = []" by (simp del: dropWhile_eq_Nil_conv)
      with False show False by (simp del: dropWhile_eq_Nil_conv)
    qed
    then have ha: "\<not> is_space (hd ?a)" by (rule hd_dropWhile)
    obtain pre where pre: "rev ?a = pre @ ?b"
      by (metis takeWhile_dropWhile_id)
    then have "rev (rev ?a) = rev (pre @ ?b)" by (rule arg_cong)
    then have "?a = rev ?b @ rev pre" by simp
    then have "hd ?a = hd (rev ?b @ rev pre)" by (rule arg_cong)
    also have "\<dots> = hd (rev ?b)" using False by (simp del: dropWhile_eq_Nil_conv)
    finally have "hd (rev ?b) = hd ?a" by simp
    with ha have 1: "\<not> is_space (hd (rev ?b))" by simp
    have 2: "last (rev ?b) = hd ?b" using False by (simp add: last_rev del: dropWhile_eq_Nil_conv)
    have "strip s = rev ?b" by (simp add: strip_def)
    with 1 2 h show ?thesis by (simp add: stripped_def del: dropWhile_eq_Nil_conv)
  qed
qed

lemma stripped_strip: "stripped s \<Longrightarrow> strip s = s"
proof (cases "s = []")
  case True
  then show ?thesis by (simp add: strip_def)
next
  case False
  assume "stripped s"
  with False have h: "\<not> is_space (hd s)" and l: "\<not> is_space (last s)"
    by (auto simp: stripped_def)
  from False h have 1: "dropWhile is_space s = s" by (cases s) auto
  from False l have "\<not> is_space (hd (rev s))" by (simp add: hd_rev)
  with False have 2: "dropWhile is_space (rev s) = rev s" by (cases "rev s") auto
  show ?thesis by (simp add: strip_def 1 2)
qed

lemma stripped_collapse: "stripped s \<Longrightarrow> stripped (collapse_ws s)"
proof (cases "s = []")
  case True
  then show ?thesis by (simp add: stripped_def)
next
  case False
  assume "stripped s"
  with False have h: "\<not> is_space (hd s)" and l: "\<not> is_space (last s)"
    by (auto simp: stripped_def)
  from False obtain c cs where s: "s = c # cs" by (cases s) auto
  from False obtain bs b where s': "s = bs @ [b]" by (metis rev_exhaust)
  from s h have "hd (collapse_ws s) = hd s" "collapse_ws s \<noteq> []" by auto
  moreover from s' l have "last (collapse_ws s) = last s"
    by (simp add: collapse_ws_snoc)
  ultimately show ?thesis using h l by (simp add: stripped_def)
qed

lemma strip_set: "set (strip s) \<subseteq> set s"
proof -
  have "set (strip s) = set (dropWhile is_space (rev (dropWhile is_space s)))"
    by (simp add: strip_def)
  also have "\<dots> \<subseteq> set (rev (dropWhile is_space s))"
    using set_dropWhileD by fastforce
  also have "\<dots> \<subseteq> set s"
    using set_dropWhileD by fastforce
  finally show ?thesis .
qed

lemma double_space_append: "double_space b \<Longrightarrow> double_space (a @ b)"
proof (induction a)
  case Nil
  then show ?case by simp
next
  case (Cons x a)
  then have "double_space (a @ b)" by simp
  then show ?case by (cases "a @ b") auto
qed

lemma double_space_prepend: "double_space a \<Longrightarrow> double_space (a @ b)"
  by (induction a rule: double_space.induct) auto

lemma strip_infix: "\<exists>pre post. s = pre @ strip s @ post"
proof -
  let ?a = "dropWhile is_space s"
  have 1: "s = takeWhile is_space s @ ?a" by simp
  have "rev ?a = takeWhile is_space (rev ?a) @ dropWhile is_space (rev ?a)" by simp
  then have "rev (rev ?a) = rev (takeWhile is_space (rev ?a) @ dropWhile is_space (rev ?a))"
    by (rule arg_cong)
  then have 2: "?a = strip s @ rev (takeWhile is_space (rev ?a))"
    by (simp add: strip_def del: takeWhile_dropWhile_id)
  from 1 2 have "s = takeWhile is_space s @ strip s @ rev (takeWhile is_space (rev ?a))"
    by simp
  then show ?thesis by blast
qed

lemma strip_no_double: "\<not> double_space s \<Longrightarrow> \<not> double_space (strip s)"
proof
  assume nd: "\<not> double_space s" and d: "double_space (strip s)"
  obtain pre post where s: "s = pre @ strip s @ post" using strip_infix by blast
  from d have "double_space (strip s @ post)" by (rule double_space_prepend)
  then have "double_space (pre @ strip s @ post)" by (rule double_space_append)
  with s nd show False by simp
qed

lemma lower_double_space: "double_space (lower s) = double_space s"
  unfolding lower_def by (induction s rule: double_space.induct) auto

lemma canonicalize_chars:
  assumes "c \<in> set (canonicalize x)"
  shows "lower_char c = c" and "c \<noteq> CHR ''.''" and "is_space c \<Longrightarrow> c = CHR '' ''"
proof -
  from assms have "c \<in> set (lower (filter (\<lambda>c. c \<noteq> CHR ''.'') (collapse_ws x)))"
    using strip_set by (auto simp: canonicalize_def normalize_NFKC_def)
  then obtain d where d: "d \<in> set (collapse_ws x)" "d \<noteq> CHR ''.''" "c = lower_char d"
    by (auto simp: lower_def)
  show "lower_char c = c" using d by simp
  show "c \<noteq> CHR ''.''" using d by simp
  show "c = CHR '' ''" if "is_space c"
  proof -
    from that d have "is_space d" by simp
    with d(1) have "d = CHR '' ''" by (rule collapse_ws_spaces)
    with d(3) show ?thesis by simp
  qed
qed

lemma canonicalize_stripped: "stripped (canonicalize x)"
  by (simp add: canonicalize_def strip_stripped)

lemma canonicalize_twice: "canonicalize (canonicalize x) = collapse_ws (canonicalize x)"
proof -
  let ?y = "canonicalize x"
  let ?z = "collapse_ws ?y"
  have sub: "set ?z \<subseteq> insert (CHR '' '') (set ?y)" by (rule collapse_ws_set)
  have dot: "CHR ''.'' \<notin> set ?z" using sub canonicalize_chars(2) [of _ x] by auto
  have "lower_char (CHR '' '') = CHR '' ''" by simp
  then have low: "\<forall>c\<in>set ?z. lower_char c = c"
    using sub canonicalize_chars(1) [of _ x] by auto
  have st: "stripped ?z" using canonicalize_stripped by (rule stripped_collapse)
  have "filter (\<lambda>c. c \<noteq> CHR ''.'') ?z = ?z" using dot by (auto simp: filter_id_conv)
  moreover have "lower ?z = ?z" using low by (simp add: lower_def map_idI)
  moreover have "strip ?z = ?z" using st by (rule stripped_strip)
  ultimately show ?thesis by (simp add: canonicalize_def normalize_NFKC_def)
qed

lemma canonicalize_idempotent_iff_aux:
  "(canonicalize (canonicalize x) = canonicalize x) = (\<not> double_space (canonicalize x))"
proof
  assume "canonicalize (canonicalize x) = canonicalize x"
  then have "collapse_ws (canonicalize x) = canonicalize x" by (simp add: canonicalize_twice)
  then show "\<not> double_space (canonicalize x)" by (metis collapse_ws_no_double)
next
  assume "\<not> double_space (canonicalize x)"
  with canonicalize_chars(3) [of _ x] have "collapse_ws (canonicalize x) = canonicalize x"
    by (intro collapse_ws_id) auto
  then show "canonicalize (canonicalize x) = canonicalize x" by (simp add: canonicalize_twice)
qed

lemma canonicalize_no_dot_no_double:
  assumes "CHR ''.'' \<notin> set x"
  shows "\<not> double_space (canonicalize x)"
proof -
  have "set (collapse_ws x) \<subseteq> insert (CHR '' '') (set x)" by (rule collapse_ws_set)
  with assms have "CHR ''.'' \<notin> set (collapse_ws x)" by auto
  then have "filter (\<lambda>c. c \<noteq> CHR ''.'') (collapse_ws x) = collapse_ws x"
    by (auto simp: filter_id_conv)
  then have "canonicalize x = strip (lower (collapse_ws x))"
    by (simp add: canonicalize_def normalize_NFKC_def)
  moreover have "\<not> double_space (lower (collapse_ws x))"
    by (simp add: lower_double_space collapse_ws_no_double)
  ultimately show ?thesis by (simp add: strip_no_double)
qed

lemma canonicalize_thrice:
  "canonicalize (canonicalize (canonicalize x)) = canonicalize (canonicalize x)"
proof -
  have "\<not> double_space (canonicalize (canonicalize x))"
    by (simp add: canonicalize_twice collapse_ws_no_double)
  then show ?thesis by (simp add: canonicalize_idempotent_iff_aux [symmetric])
qed

section \<open>The bracket pattern\<close>

lemma match_close_found:
  "CHR '']'' \<notin> set c \<Longrightarrow> CHR 0x0A \<notin> set c \<Longrightarrow> match_close (c @ CHR '']'' # rest) = Some rest"
  by (induction c) auto

lemma bracket_not_space: "\<not> is_space (CHR ''['')"
  by (simp add: is_space_def)

lemma match_at_bracket:
  assumes "CHR '']'' \<notin> set c" and "CHR 0x0A \<notin> set c"
  shows "match_at (CHR ''['' # c @ CHR '']'' # rest) = Some (dropWhile is_space rest)"
  using assms by (simp add: match_at_def bracket_not_space match_close_found)

lemma match_at_spaces:
  "\<forall>x\<in>set a. is_space x \<Longrightarrow> match_at (a @ s) = match_at s"
  by (simp add: match_at_def dropWhile_append)

lemma match_at_none:
  assumes "CHR ''['' \<notin> set a" and "\<exists>x\<in>set a. \<not> is_space x"
  shows "match_at (a @ s) = None"
proof -
  from assms(2) obtain y where y: "y \<in> set a" "\<not> is_space y" by auto
  then have app: "dropWhile is_space (a @ s) = dropWhile is_space a @ s"
    by (rule dropWhile_append1)
  from assms(2) have ne: "dropWhile is_space a \<noteq> []" by simp
  then obtain d ds where d: "dropWhile is_space a = d # ds" by (cases "dropWhile is_space a") auto
  then have "d \<in> set a" by (metis list.set_intros(1) set_dropWhileD)
  with assms(1) have nb: "d \<noteq> CHR ''[''" by auto
  with d app show ?thesis by (simp add: match_at_def)
qed

lemma rstrip_spaces:
  "\<forall>y\<in>set a. is_space y \<Longrightarrow> rev (dropWhile is_space (rev a)) = []"
  by simp

lemma rstrip_Cons:
  assumes "\<exists>y\<in>set (x # a). \<not> is_space y"
  shows "rev (dropWhile is_space (rev (x # a))) = x # rev (dropWhile is_space (rev a))"
proof (cases "\<forall>y\<in>set a. is_space y")
  case True
  with assms have "\<not> is_space x" by auto
  moreover have "dropWhile is_space (rev a @ [x]) = dropWhile is_space [x]"
    using True by (simp add: dropWhile_append)
  ultimately show ?thesis using True by simp
next
  case False
  then obtain y where "y \<in> set (rev a)" "\<not> is_space y" by auto
  then have "dropWhile is_space (rev a @ [x]) = dropWhile is_space (rev a) @ [x]"
    by (rule dropWhile_append1)
  then show ?thesis by simp
qed

lemma sub_brackets_segment:
  assumes "CHR ''['' \<notin> set a" and "CHR '']'' \<notin> set c" and "CHR 0x0A \<notin> set c"
  shows "sub_brackets (a @ CHR ''['' # c @ CHR '']'' # rest) =
           rev (dropWhile is_space (rev a)) @ sub_brackets (dropWhile is_space rest)"
  using assms(1)
proof (induction a)
  case Nil
  show ?case using match_at_bracket [OF assms(2,3), of rest] by simp
next
  case (Cons x a)
  let ?s = "CHR ''['' # c @ CHR '']'' # rest"
  show ?case
  proof (cases "\<forall>y\<in>set (x # a). is_space y")
    case True
    then have "match_at ((x # a) @ ?s) = match_at ?s" by (rule match_at_spaces)
    then have "match_at (x # a @ ?s) = Some (dropWhile is_space rest)"
      using match_at_bracket [OF assms(2,3), of rest] by simp
    then have "sub_brackets (x # a @ ?s) = sub_brackets (dropWhile is_space rest)" by simp
    moreover have "rev (dropWhile is_space (rev (x # a))) = []"
      using True by (rule rstrip_spaces)
    ultimately show ?thesis by simp
  next
    case False
    then have ex: "\<exists>y\<in>set (x # a). \<not> is_space y" by simp
    have "match_at ((x # a) @ ?s) = None" using Cons.prems ex by (rule match_at_none)
    then have "sub_brackets (x # a @ ?s) = x # sub_brackets (a @ ?s)" by simp
    moreover have "sub_brackets (a @ ?s) = rev (dropWhile is_space (rev a)) @ sub_brackets (dropWhile is_space rest)"
      using Cons by simp
    moreover have "rev (dropWhile is_space (rev (x # a))) = x # rev (dropWhile is_space (rev a))"
      using ex by (rule rstrip_Cons)
    ultimately show ?thesis by simp
  qed
qed


lemma match_close_suffix: "match_close s = Some t \<Longrightarrow> suffix t s"
  by (induction s) (auto split: if_splits intro: suffix_ConsI)

lemma match_close_append_Some:
  "match_close a = Some t \<Longrightarrow> match_close (a @ s) = Some (t @ s)"
  by (induction a) (auto split: if_splits)

lemma match_close_append_None:
  "match_close a = None \<Longrightarrow>
   match_close (a @ s) = (if CHR 0x0A \<in> set a then None else match_close s)"
  by (induction a) (auto split: if_splits)

lemma dropWhile_space_append:
  assumes "s \<noteq> []" and "\<not> is_space (hd s)"
  shows "dropWhile is_space (t @ s) = dropWhile is_space t @ s"
proof (cases "\<forall>x\<in>set t. is_space x")
  case True
  then have "dropWhile is_space (t @ s) = dropWhile is_space s"
    by (simp add: dropWhile_append)
  also have "\<dots> = s" using assms by (cases s) auto
  finally show ?thesis using True by simp
next
  case False
  then obtain y where "y \<in> set t" "\<not> is_space y" by auto
  then show ?thesis by (rule dropWhile_append1)
qed

lemma match_at_segment_cases:
  assumes c: "CHR '']'' \<notin> set c" "CHR 0x0A \<notin> set c"
    and m: "match_at (a @ CHR ''['' # c @ CHR '']'' # rest) = Some t"
  shows "(\<exists>b. t = b @ CHR ''['' # c @ CHR '']'' # rest \<and> suffix b a \<and> length b < length a) \<or>
         t = dropWhile is_space rest"
proof (cases "\<forall>x\<in>set a. is_space x")
  case True
  then have "match_at (a @ CHR ''['' # c @ CHR '']'' # rest) =
               match_at (CHR ''['' # c @ CHR '']'' # rest)"
    by (rule match_at_spaces)
  with m show ?thesis by (simp add: match_at_bracket [OF c])
next
  case False
  let ?S = "CHR ''['' # c @ CHR '']'' # rest"
  from False obtain y where y: "y \<in> set a" "\<not> is_space y" by auto
  then have app: "dropWhile is_space (a @ ?S) = dropWhile is_space a @ ?S"
    by (rule dropWhile_append1)
  from False have "dropWhile is_space a \<noteq> []" by simp
  then obtain d a1 where d: "dropWhile is_space a = d # a1"
    by (cases "dropWhile is_space a") auto
  have s1: "suffix (d # a1) a" using suffix_dropWhile [of is_space a] by (simp add: d)
  from m app d have br: "d = CHR ''[''"
    by (auto simp: match_at_def split: if_splits)
  from m app d br obtain u where u: "match_close (a1 @ ?S) = Some u" "t = dropWhile is_space u"
    by (auto simp: match_at_def split: option.splits)
  show ?thesis
  proof (cases "match_close a1")
    case None
    with u(1) have nl: "CHR 0x0A \<notin> set a1" and "match_close ?S = Some u"
      by (auto simp: match_close_append_None split: if_splits)
    then have "u = rest" using match_close_found [OF c, of rest] by simp
    with u(2) show ?thesis by simp
  next
    case (Some t1)
    with u(1) have "u = t1 @ ?S" by (simp add: match_close_append_Some)
    with u(2) have t: "t = dropWhile is_space t1 @ ?S"
      by (simp add: dropWhile_space_append bracket_not_space)
    have "suffix (dropWhile is_space t1) t1" by (rule suffix_dropWhile)
    moreover have "suffix t1 a1" using Some by (rule match_close_suffix)
    moreover have "suffix a1 (d # a1)" by (simp add: suffix_ConsI)
    ultimately have sf: "suffix (dropWhile is_space t1) a"
      using s1 by (meson suffix_order.trans)
    have "length (dropWhile is_space t1) \<le> length a1"
      using \<open>suffix (dropWhile is_space t1) t1\<close> \<open>suffix t1 a1\<close>
      by (meson suffix_length_le le_trans)
    also have "length a1 < length (d # a1)" by simp
    also have "length (d # a1) \<le> length a" using s1 by (rule suffix_length_le)
    finally have "length (dropWhile is_space t1) < length a" .
    with t sf show ?thesis by blast
  qed
qed

lemma sub_brackets_removes:
  assumes c: "CHR '']'' \<notin> set c" "CHR 0x0A \<notin> set c"
  shows "\<exists>X. sub_brackets (a @ CHR ''['' # c @ CHR '']'' # rest) =
               X @ sub_brackets (dropWhile is_space rest) \<and>
             subseq X a \<and> (X \<noteq> [] \<longrightarrow> \<not> is_space (last X)) \<and>
             (X = [] \<longrightarrow> match_at (a @ CHR ''['' # c @ CHR '']'' # rest) \<noteq> None)"
proof (induction a rule: length_induct)
  case (1 a)
  let ?S = "CHR ''['' # c @ CHR '']'' # rest"
  let ?R = "sub_brackets (dropWhile is_space rest)"
  show ?case
  proof (cases a)
    case Nil
    have "match_at ?S = Some (dropWhile is_space rest)" by (rule match_at_bracket [OF c])
    then have "sub_brackets (a @ ?S) = [] @ ?R \<and> match_at (a @ ?S) \<noteq> None"
      using Nil by simp
    then show ?thesis by (intro exI [of _ "[]"]) simp
  next
    case (Cons x a')
    show ?thesis
    proof (cases "match_at (a @ ?S)")
      case None
      have "length a' < length a" using Cons by simp
      with 1 obtain X' where X': "sub_brackets (a' @ ?S) = X' @ ?R" "subseq X' a'"
          "X' \<noteq> [] \<longrightarrow> \<not> is_space (last X')" "X' = [] \<longrightarrow> match_at (a' @ ?S) \<noteq> None"
        by blast
      have sb: "sub_brackets (a @ ?S) = (x # X') @ ?R"
        using None Cons X'(1) by simp
      have sq: "subseq (x # X') a" using X'(2) Cons by (simp add: subseq_Cons2)
      have "\<not> is_space (last (x # X'))"
      proof (cases "X' = []")
        case True
        with X'(4) have ne: "match_at (a' @ ?S) \<noteq> None" by simp
        have "\<not> is_space x"
        proof
          assume "is_space x"
          then have "match_at ([x] @ a' @ ?S) = match_at (a' @ ?S)"
            by (intro match_at_spaces) simp
          with None Cons ne show False by simp
        qed
        with True show ?thesis by simp
      next
        case False
        with X'(3) show ?thesis by simp
      qed
      with sb sq show ?thesis by (intro exI [of _ "x # X'"]) simp
    next
      case (Some t)
      have sb: "sub_brackets (a @ ?S) = sub_brackets t" using Some Cons by simp
      from match_at_segment_cases [OF c Some]
      show ?thesis
      proof
        assume "\<exists>b. t = b @ ?S \<and> suffix b a \<and> length b < length a"
        then obtain b where b: "t = b @ ?S" "suffix b a" "length b < length a" by blast
        with 1 obtain X where X: "sub_brackets (b @ ?S) = X @ ?R" "subseq X b"
            "X \<noteq> [] \<longrightarrow> \<not> is_space (last X)"
          by blast
        have "subseq X a"
          using X(2) suffix_imp_subseq [OF b(2)] by (rule subseq_order.trans)
        with X sb b(1) Some show ?thesis by (intro exI [of _ X]) simp
      next
        assume "t = dropWhile is_space rest"
        with sb Some show ?thesis by (intro exI [of _ "[]"]) simp
      qed
    qed
  qed
qed


lemma rstrip_subseq: "subseq (rev (dropWhile is_space (rev a))) a"
proof -
  have "rev a = takeWhile is_space (rev a) @ dropWhile is_space (rev a)" by simp
  then have "rev (rev a) = rev (takeWhile is_space (rev a) @ dropWhile is_space (rev a))"
    by (rule arg_cong)
  then have "a = rev (dropWhile is_space (rev a)) @ rev (takeWhile is_space (rev a))"
    by (simp del: takeWhile_dropWhile_id)
  then have "prefix (rev (dropWhile is_space (rev a))) a" by (rule prefixI)
  then show ?thesis by (rule prefix_imp_subseq)
qed

lemma rstrip_last:
  assumes "rev (dropWhile is_space (rev a)) \<noteq> []"
  shows "\<not> is_space (last (rev (dropWhile is_space (rev a))))"
proof -
  from assms have ne: "dropWhile is_space (rev a) \<noteq> []" by (simp del: dropWhile_eq_Nil_conv)
  then have "\<not> is_space (hd (dropWhile is_space (rev a)))" by (rule hd_dropWhile)
  with ne show ?thesis by (simp add: last_rev del: dropWhile_eq_Nil_conv)
qed

section \<open>Claims about \<open>canonicalize\<close> and \<open>normalize_input_name\<close>\<close>

text \<open>
  C7, as the spec states it: \<^verbatim>\<open>canonicalize("J. R. R. Tolkien") == canonicalize("jrr tolkien")\<close>.
  The code removes the periods and lowers the case, but keeps the spaces between the
  initials: the two values differ.
\<close>

theorem canonicalize_tolkien_counterexample:
  "canonicalize ''J. R. R. Tolkien'' \<noteq> canonicalize ''jrr tolkien''"
  by code_simp

text \<open>
  C7, amended: \<^verbatim>\<open>canonicalize("J. R. R. Tolkien")\<close> is \<^verbatim>\<open>"j r r tolkien"\<close>, which is also
  \<^verbatim>\<open>canonicalize("j r r tolkien")\<close>; and it is the name written without spaces between
  its initials, \<^verbatim>\<open>"J.R.R. Tolkien"\<close>, that canonicalizes to the same value as
  \<^verbatim>\<open>"jrr tolkien"\<close>.
\<close>

theorem canonicalize_tolkien:
  "canonicalize ''J. R. R. Tolkien'' = ''j r r tolkien'' \<and>
   canonicalize ''J. R. R. Tolkien'' = canonicalize ''j r r tolkien'' \<and>
   canonicalize ''J.R.R. Tolkien'' = canonicalize ''jrr tolkien''"
  by code_simp

text \<open>
  C8, as the spec states it: \<open>canonicalize (canonicalize x) = canonicalize x\<close> for every
  string. White space is collapsed before the periods are removed, so a period that
  stands between two spaces leaves two adjacent spaces behind, and a second call
  collapses them: \<^verbatim>\<open>canonicalize("a . b")\<close> is \<^verbatim>\<open>"a  b"\<close>, and
  \<^verbatim>\<open>canonicalize("a  b")\<close> is \<^verbatim>\<open>"a b"\<close>.
\<close>

theorem canonicalize_idempotent_counterexample:
  "canonicalize (canonicalize ''a . b'') \<noteq> canonicalize ''a . b''"
  by code_simp

text \<open>
  C8, amended: for every ASCII string \<open>x\<close>, a second call of \<open>canonicalize\<close> returns
  the value of the first exactly when that value has no two adjacent spaces; this is so
  whenever \<open>x\<close> contains no period; and a third call never changes the value of the
  second.
\<close>

theorem canonicalize_idempotent_amended:
  assumes "ascii x"
  shows "(canonicalize (canonicalize x) = canonicalize x) = (\<not> double_space (canonicalize x)) \<and>
         (CHR ''.'' \<notin> set x \<longrightarrow> canonicalize (canonicalize x) = canonicalize x) \<and>
         canonicalize (canonicalize (canonicalize x)) = canonicalize (canonicalize x)"
proof (intro conjI impI)
  show iff: "(canonicalize (canonicalize x) = canonicalize x) = (\<not> double_space (canonicalize x))"
    by (rule canonicalize_idempotent_iff_aux)
  show "canonicalize (canonicalize x) = canonicalize x" if "CHR ''.'' \<notin> set x"
    using that iff canonicalize_no_dot_no_double by simp
  show "canonicalize (canonicalize (canonicalize x)) = canonicalize (canonicalize x)"
    by (rule canonicalize_thrice)
qed

theorem canonicalize_idempotent_amended_witness:
  "ascii ''J. R. R. Tolkien'' \<and> \<not> double_space (canonicalize ''J. R. R. Tolkien'') \<and>
   canonicalize (canonicalize ''J. R. R. Tolkien'') = canonicalize ''J. R. R. Tolkien'' \<and>
   ascii ''jrr tolkien'' \<and> CHR ''.'' \<notin> set ''jrr tolkien'' \<and>
   canonicalize (canonicalize ''jrr tolkien'') = canonicalize ''jrr tolkien''"
proof -
  have a: "ascii ''J. R. R. Tolkien''" by code_simp
  have d: "\<not> double_space (canonicalize ''J. R. R. Tolkien'')" by code_simp
  have b: "ascii ''jrr tolkien''" by code_simp
  have n: "CHR ''.'' \<notin> set ''jrr tolkien''" by simp
  show ?thesis
    using canonicalize_idempotent_amended [OF a] canonicalize_idempotent_amended [OF b] a b d n
    by blast
qed

text \<open>
  C10, as stated: \<open>normalize_input_name\<close> removes every bracketed segment, with the
  white space around it, anywhere in the string. The \<^verbatim>\<open>.\<close> of the pattern does not
  match a line feed, so a bracket whose closing bracket comes after a line feed is not
  matched, and the name keeps it.
\<close>

theorem normalize_input_name_line_feed_counterexample:
  "normalize_input_name (''Jane [0002'' @ [CHR 0x0A] @ ''] Doe'') =
     ''Jane [0002'' @ [CHR 0x0A] @ ''] Doe''"
  by code_simp

text \<open>
  C10, amended: \<open>normalize_input_name\<close> removes every bracketed segment that has no
  line feed in it (an opening bracket, the text up to the first closing bracket, and
  that bracket) together with the white space on both sides of it, wherever it stands,
  not only at the end of the name. For ASCII text \<open>a [c] rest\<close>, where \<open>c\<close> has no
  closing bracket and no line feed, the result is the strip of \<open>X\<close> followed by what
  the substitution leaves of \<open>rest\<close> without its leading white space (further segments
  of \<open>rest\<close> are removed the same way): \<open>X\<close> is what is left of \<open>a\<close>, it does not end
  in white space, and it is \<open>a\<close> without its trailing white space when \<open>a\<close> has no
  opening bracket. So \<^verbatim>\<open>"Jane [0002] Doe"\<close> becomes \<^verbatim>\<open>"JaneDoe"\<close>, and
  \<^verbatim>\<open>"Jane Doe [0002]"\<close> becomes \<^verbatim>\<open>"Jane Doe"\<close>.
\<close>

theorem normalize_input_name_segment:
  "(ascii (a @ c @ rest) \<longrightarrow> CHR '']'' \<notin> set c \<longrightarrow> CHR 0x0A \<notin> set c \<longrightarrow>
      (\<exists>X. normalize_input_name (a @ ''['' @ c @ '']'' @ rest) =
             strip (X @ sub_brackets (dropWhile is_space rest)) \<and>
           subseq X a \<and> (X \<noteq> [] \<longrightarrow> \<not> is_space (last X)) \<and>
           (CHR ''['' \<notin> set a \<longrightarrow> X = rev (dropWhile is_space (rev a))))) \<and>
   normalize_input_name ''Jane [0002] Doe'' = ''JaneDoe'' \<and>
   normalize_input_name ''Jane Doe [0002]'' = ''Jane Doe''"
proof (intro conjI impI)
  assume c: "CHR '']'' \<notin> set c" "CHR 0x0A \<notin> set c"
  let ?R = "sub_brackets (dropWhile is_space rest)"
  show "\<exists>X. normalize_input_name (a @ ''['' @ c @ '']'' @ rest) = strip (X @ ?R) \<and>
           subseq X a \<and> (X \<noteq> [] \<longrightarrow> \<not> is_space (last X)) \<and>
           (CHR ''['' \<notin> set a \<longrightarrow> X = rev (dropWhile is_space (rev a)))"
  proof (cases "CHR ''['' \<in> set a")
    case True
    obtain X where X: "sub_brackets (a @ CHR ''['' # c @ CHR '']'' # rest) = X @ ?R"
        "subseq X a" "X \<noteq> [] \<longrightarrow> \<not> is_space (last X)"
      using sub_brackets_removes [OF c, of a rest] by blast
    have "normalize_input_name (a @ ''['' @ c @ '']'' @ rest) = strip (X @ ?R)"
      using X(1) by (simp add: normalize_input_name_def)
    with X(2,3) True show ?thesis by blast
  next
    case False
    let ?X = "rev (dropWhile is_space (rev a))"
    have "normalize_input_name (a @ ''['' @ c @ '']'' @ rest) = strip (?X @ ?R)"
      using False c by (simp add: normalize_input_name_def sub_brackets_segment)
    moreover have "subseq ?X a" by (rule rstrip_subseq)
    moreover have "?X \<noteq> [] \<longrightarrow> \<not> is_space (last ?X)" using rstrip_last by blast
    ultimately show ?thesis by blast
  qed
next
  show "normalize_input_name ''Jane [0002] Doe'' = ''JaneDoe''" by code_simp
next
  show "normalize_input_name ''Jane Doe [0002]'' = ''Jane Doe''" by code_simp
qed

theorem normalize_input_name_segment_witness:
  "ascii (''Jane '' @ ''0002'' @ '' K. [x] Doe '') \<and>
   CHR '']'' \<notin> set ''0002'' \<and> CHR 0x0A \<notin> set ''0002'' \<and> CHR ''['' \<notin> set ''Jane '' \<and>
   normalize_input_name (''Jane '' @ ''['' @ ''0002'' @ '']'' @ '' K. [x] Doe '') =
     strip (rev (dropWhile is_space (rev ''Jane '')) @ sub_brackets (dropWhile is_space '' K. [x] Doe '')) \<and>
   normalize_input_name (''Jane '' @ ''['' @ ''0002'' @ '']'' @ '' K. [x] Doe '') = ''JaneK.Doe''"
proof -
  have a: "ascii (''Jane '' @ ''0002'' @ '' K. [x] Doe '')" by code_simp
  have 1: "CHR ''['' \<notin> set ''Jane ''" by simp
  have 2: "CHR '']'' \<notin> set ''0002''" by simp
  have 3: "CHR 0x0A \<notin> set ''0002''" by simp
  have v: "strip (rev (dropWhile is_space (rev ''Jane '')) @ sub_brackets (dropWhile is_space '' K. [x] Doe '')) = ''JaneK.Doe''"
    by code_simp
  have "CHR '']'' \<notin> set ''0002'' \<longrightarrow> CHR 0x0A \<notin> set ''0002'' \<longrightarrow>
      (\<exists>X. normalize_input_name (''Jane '' @ ''['' @ ''0002'' @ '']'' @ '' K. [x] Doe '') =
             strip (X @ sub_brackets (dropWhile is_space '' K. [x] Doe '')) \<and>
           subseq X ''Jane '' \<and> (X \<noteq> [] \<longrightarrow> \<not> is_space (last X)) \<and>
           (CHR ''['' \<notin> set ''Jane '' \<longrightarrow> X = rev (dropWhile is_space (rev ''Jane ''))))"
    using normalize_input_name_segment [of "''Jane ''" "''0002''" "'' K. [x] Doe ''"] a
    by (elim conjE) (rule mp)
  with 2 3 obtain X where
      X: "normalize_input_name (''Jane '' @ ''['' @ ''0002'' @ '']'' @ '' K. [x] Doe '') =
             strip (X @ sub_brackets (dropWhile is_space '' K. [x] Doe ''))"
         "CHR ''['' \<notin> set ''Jane '' \<longrightarrow> X = rev (dropWhile is_space (rev ''Jane ''))"
    by blast
  from X(2) 1 have "X = rev (dropWhile is_space (rev ''Jane ''))" by (rule mp)
  with X(1) have e: "normalize_input_name (''Jane '' @ ''['' @ ''0002'' @ '']'' @ '' K. [x] Doe '') =
     strip (rev (dropWhile is_space (rev ''Jane '')) @ sub_brackets (dropWhile is_space '' K. [x] Doe ''))"
    by (simp only:)
  from e v have f: "normalize_input_name (''Jane '' @ ''['' @ ''0002'' @ '']'' @ '' K. [x] Doe '') = ''JaneK.Doe''"
    by (rule trans)
  from a 1 2 3 e f show ?thesis by blast
qed

section \<open>Claims about the feedback controller\<close>














section \<open>Claims about \<open>dblp_author_search\<close>\<close>

lemma hits_of_reply: "hits_of (dblp_reply hits) = Inr hits"
  by (simp add: hits_of_def dblp_reply_def)

lemma scan_hit_well_formed:
  assumes "well_formed_hit h"
  shows "scan_hit w n q h found =
           Inr (fst found \<or> exact_match q h, snd found \<or> (\<not> exact_match q h \<and> alias_match w n h))"
proof -
  from assms obtain a u where hf: "hit_fields h = Inr (JStr a, u)"
    by (auto simp: well_formed_hit_def split: sum.splits prod.splits json.splits)
  show ?thesis
    by (cases found) (auto simp: scan_hit_def exact_match_def alias_match_def hf)
qed

lemma scan_hit_malformed:
  assumes "\<not> well_formed_hit h"
  shows "\<exists>e. scan_hit w n q h found = Inl e"
  using assms
  by (auto simp: well_formed_hit_def scan_hit_def split: sum.splits prod.splits json.splits)

lemma scan_hits_well_formed:
  assumes "list_all well_formed_hit hits"
  shows "scan_hits w n q hits found =
           Inr (fst found \<or> (\<exists>h\<in>set hits. exact_match q h),
                snd found \<or> (\<exists>h\<in>set hits. \<not> exact_match q h \<and> alias_match w n h))"
  using assms
proof (induction hits arbitrary: found)
  case Nil
  show ?case by simp
next
  case (Cons h hits)
  then have wf: "well_formed_hit h" and rest: "list_all well_formed_hit hits" by simp_all
  show ?case
    unfolding scan_hits.simps scan_hit_well_formed [OF wf] sum.case Cons.IH [OF rest]
    by auto
qed

lemma scan_hits_malformed:
  assumes "\<not> list_all well_formed_hit hits"
  shows "\<exists>e. scan_hits w n q hits found = Inl e"
  using assms
proof (induction hits arbitrary: found)
  case Nil
  then show ?case by simp
next
  case (Cons h hits)
  show ?case
  proof (cases "well_formed_hit h")
    case True
    with Cons.prems have "\<not> list_all well_formed_hit hits" by simp
    then show ?thesis
      unfolding scan_hits.simps scan_hit_well_formed [OF True] sum.case by (rule Cons.IH)
  next
    case False
    then obtain e where "scan_hit w n q h found = Inl e"
      using scan_hit_malformed by blast
    then show ?thesis by simp
  qed
qed



text \<open>
  C3, as the spec states it: for every hit list the search returns, the verdict is
  \<open>EXACT\<close> when some hit matches exactly. A hit the loop body raises on (here a
  \<^verbatim>\<open>null\<close>, which has no \<^verbatim>\<open>get\<close>) ends the call in the \<^verbatim>\<open>except\<close> clause: the verdict
  is \<open>ERROR\<close>, although the hit before it matched exactly.
\<close>

theorem dblp_author_search_priority_counterexample:
  "exact_match (canonicalize (normalize_input_name ''Alice Smith''))
     (author_hit ''Alice Smith'' ''https://dblp.org/pid/1/2'') \<and>
   dblp_author_search (serving [author_hit ''Alice Smith'' ''https://dblp.org/pid/1/2'', JNull])
     ''Alice Smith'' = (''Alice Smith'', ERROR)"
  by code_simp

text \<open>
  C3, amended: when the search call succeeds and returns the hit list \<open>hits\<close>, the
  verdict is \<open>ERROR\<close> if some hit is not well formed; otherwise it is \<open>EXACT\<close> if some
  hit matches exactly (also when another hit has an alias match), \<open>ALIAS\<close> if no hit
  matches exactly and some hit has an alias match, and \<open>NOT_FOUND\<close> if neither.
\<close>

theorem dblp_author_search_priority:
  assumes "search_author_api w (normalize_input_name name) = Response status_code (Some data)"
    and "status_code \<noteq> 429" and "\<not> raise_for_status status_code"
    and "hits_of data = Inr hits"
  shows "dblp_author_search w name =
     (name,
      if \<not> list_all well_formed_hit hits then ERROR
      else if \<exists>h\<in>set hits. exact_match (canonicalize (normalize_input_name name)) h then EXACT
      else if \<exists>h\<in>set hits. alias_match w (normalize_input_name name) h then ALIAS
      else NOT_FOUND)"
proof (cases "list_all well_formed_hit hits")
  case True
  let ?n = "normalize_input_name name"
  let ?q = "canonicalize ?n"
  have "search_and_match w ?n ?q =
     (if \<exists>h\<in>set hits. exact_match ?q h then Inr EXACT
      else if \<exists>h\<in>set hits. alias_match w ?n h then Inr ALIAS
      else Inr NOT_FOUND)"
    using assms by (auto simp: search_and_match_def scan_hits_well_formed [OF True])
  with True show ?thesis by (simp add: dblp_author_search_def Let_def)
next
  case False
  let ?n = "normalize_input_name name"
  let ?q = "canonicalize ?n"
  obtain e where "scan_hits w ?n ?q hits (False, False) = Inl e"
    using scan_hits_malformed [OF False] by blast
  then have "search_and_match w ?n ?q = Inl e"
    using assms by (simp add: search_and_match_def)
  with False show ?thesis by (simp add: dblp_author_search_def Let_def)
qed

theorem dblp_author_search_priority_witness:
  "alias_match (serving [author_hit ''Carol A. Lee'' ''https://dblp.org/pid/12/345'',
                       author_hit ''CAROL LEE'' ''https://dblp.org/pid/99/1''])
     (normalize_input_name ''Carol Lee [0001]'')
     (author_hit ''Carol A. Lee'' ''https://dblp.org/pid/12/345'') \<and>
   exact_match (canonicalize (normalize_input_name ''Carol Lee [0001]''))
     (author_hit ''CAROL LEE'' ''https://dblp.org/pid/99/1'') \<and>
   dblp_author_search
     (serving [author_hit ''Carol A. Lee'' ''https://dblp.org/pid/12/345'',
               author_hit ''CAROL LEE'' ''https://dblp.org/pid/99/1''])
     ''Carol Lee [0001]'' = (''Carol Lee [0001]'', EXACT)"
proof -
  let ?hs = "[author_hit ''Carol A. Lee'' ''https://dblp.org/pid/12/345'',
              author_hit ''CAROL LEE'' ''https://dblp.org/pid/99/1'']"
  have a: "alias_match (serving ?hs) (normalize_input_name ''Carol Lee [0001]'')
     (author_hit ''Carol A. Lee'' ''https://dblp.org/pid/12/345'')"
    by code_simp
  have x: "exact_match (canonicalize (normalize_input_name ''Carol Lee [0001]''))
     (author_hit ''CAROL LEE'' ''https://dblp.org/pid/99/1'')"
    by code_simp
  have wf: "list_all well_formed_hit ?hs" by code_simp
  have 1: "search_author_api (serving ?hs) (normalize_input_name ''Carol Lee [0001]'') =
             Response 200 (Some (dblp_reply ?hs))"
    by (simp add: serving_def)
  have 2: "(200::nat) \<noteq> 429" by simp
  have 3: "\<not> raise_for_status 200" by (simp add: raise_for_status_def)
  have 4: "hits_of (dblp_reply ?hs) = Inr ?hs" by (rule hits_of_reply)
  from x have ex: "\<exists>h\<in>set ?hs. exact_match (canonicalize (normalize_input_name ''Carol Lee [0001]'')) h"
    by simp
  have "dblp_author_search (serving ?hs) ''Carol Lee [0001]'' = (''Carol Lee [0001]'', EXACT)"
    unfolding dblp_author_search_priority [OF 1 2 3 4] using wf ex by simp
  with a x show ?thesis by blast
qed

section \<open>One run and resumed runs\<close>

lemma dblp_author_search_fst: "fst (dblp_author_search w n) = n"
  by (simp add: dblp_author_search_def Let_def split: sum.splits)

lemma handle_result_returned:
  assumes "snd future = Inr (row_name (fst future), v)"
  shows "queried (handle_result future st) = queried st"
    and "out_csv (handle_result future st) =
           out_csv st @ (if v = NOT_FOUND \<and> row_name (fst future) \<notin> already_output st
                         then [fst future] else [])"
    and "already_output (handle_result future st) =
           (if v = NOT_FOUND \<and> row_name (fst future) \<notin> already_output st
            then insert (row_name (fst future)) (already_output st) else already_output st)"
    and "progress (handle_result future st) =
           Some (ledger_text (progress st) @ entry (row_name (fst future)))"
    and "seen (handle_result future st) = insert (row_name (fst future)) (seen st)"
    and "total_requests (handle_result future st) = total_requests st + 1"
  using assms
  by (simp_all add: handle_result_def Let_def split_beta ledger_text_def entry_def)


lemma drain_queried:
  "list_all sound_future futures \<Longrightarrow> queried (drain st futures) = queried st"
proof (induction futures arbitrary: st)
  case Nil
  show ?case by simp
next
  case (Cons f futures)
  then obtain v where v: "snd f = Inr (row_name (fst f), v)" by (auto simp: sound_future_def)
  from Cons show ?case by (simp add: handle_result_returned(1) [OF v])
qed

lemma drain_progress:
  "list_all sound_future futures \<Longrightarrow>
   ledger_text (progress (drain st futures)) =
     ledger_text (progress st) @ concat (map (\<lambda>f. entry (row_name (fst f))) futures)"
proof (induction futures arbitrary: st)
  case Nil
  show ?case by simp
next
  case (Cons f futures)
  then obtain v where v: "snd f = Inr (row_name (fst f), v)" by (auto simp: sound_future_def)
  from Cons show ?case
    by (simp add: handle_result_returned(4) [OF v] ledger_text_def)
qed

lemma drain_output:
  assumes "list_all sound_future futures"
  shows "\<exists>app. out_csv (drain st futures) = out_csv st @ app \<and>
               distinct (map row_name app) \<and>
               set (map row_name app) \<inter> already_output st = {} \<and>
               already_output (drain st futures) = already_output st \<union> set (map row_name app)"
  using assms
proof (induction futures arbitrary: st)
  case Nil
  show ?case by simp
next
  case (Cons f futures)
  then obtain v where v: "snd f = Inr (row_name (fst f), v)" by (auto simp: sound_future_def)
  let ?st = "handle_result f st"
  let ?a = "if v = NOT_FOUND \<and> row_name (fst f) \<notin> already_output st then [fst f] else []"
  have o: "out_csv ?st = out_csv st @ ?a" by (rule handle_result_returned(2) [OF v])
  have a: "already_output ?st = already_output st \<union> set (map row_name ?a)"
    by (auto simp: handle_result_returned(3) [OF v])
  from Cons have "list_all sound_future futures" by simp
  from Cons.IH [OF this, of ?st] obtain app where
    app: "out_csv (drain ?st futures) = out_csv ?st @ app"
      "distinct (map row_name app)"
      "set (map row_name app) \<inter> already_output ?st = {}"
      "already_output (drain ?st futures) = already_output ?st \<union> set (map row_name app)"
    by blast
  have 1: "out_csv (drain st (f # futures)) = out_csv st @ (?a @ app)"
    using app(1) o by simp
  have 2: "distinct (map row_name (?a @ app))"
    using app(2,3) a by auto
  have 3: "set (map row_name (?a @ app)) \<inter> already_output st = {}"
    using app(3) a by auto
  have 4: "already_output (drain st (f # futures)) = already_output st \<union> set (map row_name (?a @ app))"
    using app(4) a by auto
  from 1 2 3 4 show ?case by blast
qed

lemma as_completed_mset: "mset (as_completed sched xs) = mset xs"
proof (induction sched xs rule: as_completed.induct)
  case (1 sched)
  show ?case by simp
next
  case (2 f fs)
  show ?case by simp
next
  case (3 k sched f fs)
  let ?xs = "f # fs"
  let ?i = "k mod length ?xs"
  have i: "?i < length ?xs" by simp
  have "mset (as_completed (k # sched) ?xs) =
          add_mset (?xs ! ?i) (mset (take ?i ?xs @ drop (Suc ?i) ?xs))"
    using 3 by (simp add: Let_def)
  also have "\<dots> = mset (take ?i ?xs @ ?xs ! ?i # drop (Suc ?i) ?xs)" by simp
  also have "take ?i ?xs @ ?xs ! ?i # drop (Suc ?i) ?xs = ?xs"
    using i by (rule id_take_nth_drop [symmetric])
  finally show ?case .
qed

lemma as_completed_set: "set (as_completed sched xs) = set xs"
  using as_completed_mset [of sched xs] by (rule mset_eq_setD)

text \<open>Every order of the futures is the order of some schedule.\<close>

lemma as_completed_any_order:
  "mset ys = mset xs \<Longrightarrow> \<exists>sched. as_completed sched xs = ys"
proof (induction ys arbitrary: xs)
  case Nil
  then have "xs = []" by simp
  then show ?case by simp
next
  case (Cons y ys)
  then have "y \<in> set xs" by (metis list.set_intros(1) mset_eq_setD)
  then obtain i where i: "i < length xs" "xs ! i = y" by (auto simp: in_set_conv_nth)
  let ?rest = "take i xs @ drop (Suc i) xs"
  have xs: "xs = take i xs @ y # drop (Suc i) xs"
    using i id_take_nth_drop by blast
  then have "mset xs = add_mset y (mset ?rest)"
    by (metis mset.simps(2) mset_append union_mset_add_mset_right)
  with Cons.prems have "mset ys = mset ?rest" by simp
  then obtain sched where s: "as_completed sched ?rest = ys" using Cons.IH by blast
  from i obtain f fs where f: "xs = f # fs" by (cases xs) auto
  have "as_completed (i # sched) xs = xs ! i # as_completed sched ?rest"
    using i(1) unfolding f by (simp add: Let_def)
  with s i(2) show ?case by blast
qed

lemma futures_of_fst: "map fst (futures_of worlds submitted) = submitted"
proof -
  have "map fst (futures_of worlds submitted) = map snd (enumerate 0 submitted)"
    by (simp add: futures_of_def comp_def case_prod_beta)
  then show ?thesis by simp
qed

lemma futures_of_sound: "list_all sound_future (futures_of worlds submitted)"
proof -
  have "sound_future (row, Inr (dblp_author_search w (row_name row)))" for row w
    using dblp_author_search_fst [of w "row_name row"]
    by (cases "dblp_author_search w (row_name row)") (simp add: sound_future_def)
  then show ?thesis
    by (auto simp: futures_of_def list_all_iff)
qed

lemma completed_sound:
  "list_all sound_future (as_completed sched (futures_of worlds submitted))"
  using futures_of_sound [of worlds submitted]
  by (simp add: list_all_iff as_completed_set)

lemma completed_names:
  "mset (map (\<lambda>f. row_name (fst f)) (as_completed sched (futures_of worlds submitted))) =
     mset (map row_name submitted)"
proof -
  have "mset (map (\<lambda>f. row_name (fst f)) (as_completed sched (futures_of worlds submitted))) =
        image_mset (\<lambda>f. row_name (fst f)) (mset (futures_of worlds submitted))"
    by (simp add: as_completed_mset)
  also have "\<dots> = mset (map row_name (map fst (futures_of worlds submitted)))"
    by (simp add: comp_def)
  finally show ?thesis by (simp only: futures_of_fst)
qed

lemma process_batch_unfold:
  assumes "rows \<noteq> []"
  shows "process_batch worlds sched rows fs seen0 ao pid =
     Inr (drain \<lparr>queried = map row_name (submitted_rows seen0 rows),
                   out_log = (case log_file fs of None \<Rightarrow> [] | Some ls \<Rightarrow> ls),
                   out_csv = output_rows fs,
                   progress = progress_file fs,
                   seen = seen0, already_output = ao,
                   total_requests = 0, total_errors = 0,
                   pid_controller = pid, sleeps = []\<rparr>
            (as_completed sched (futures_of worlds (submitted_rows seen0 rows))))"
  using assms
  by (simp add: process_batch_def Let_def submitted_rows_def futures_of_def output_rows_def)

lemma read_progress_empty: "read_progress [] = []"
  by (simp add: read_progress_def)

lemma seen_at_start:
  "(case progress_file fs of None \<Rightarrow> {} | Some t \<Rightarrow> set (read_progress t)) =
     set (read_progress (ledger_text (progress_file fs)))"
  by (cases "progress_file fs") (simp_all add: ledger_text_def read_progress_empty)

lemma already_output_at_start:
  "(case output_csv fs of None \<Rightarrow> {} | Some rs \<Rightarrow> set (map row_name rs)) =
     set (map row_name (output_rows fs))"
  by (cases "output_csv fs") (simp_all add: output_rows_def)

lemma process_batch_run:
  assumes "rows \<noteq> []"
  shows "\<exists>st app P.
           process_batch worlds sched rows fs seen0 ao pid = Inr st \<and>
           queried st = map row_name (submitted_rows seen0 rows) \<and>
           out_csv st = output_rows fs @ app \<and>
           distinct (map row_name app) \<and>
           set (map row_name app) \<inter> ao = {} \<and>
           ledger_text (progress st) = ledger_text (progress_file fs) @ concat (map entry P) \<and>
           mset P = mset (map row_name (submitted_rows seen0 rows))"
proof -
  define sub where "sub = submitted_rows seen0 rows"
  define completed where "completed = as_completed sched (futures_of worlds sub)"
  define st0 where "st0 = \<lparr>queried = map row_name sub,
                   out_log = (case log_file fs of None \<Rightarrow> [] | Some ls \<Rightarrow> ls),
                   out_csv = output_rows fs,
                   progress = progress_file fs,
                   seen = seen0, already_output = ao,
                   total_requests = 0, total_errors = 0,
                   pid_controller = pid, sleeps = []\<rparr>"
  define st where "st = drain st0 completed"
  have f: "queried st0 = map row_name sub" "out_csv st0 = output_rows fs"
    "progress st0 = progress_file fs" "already_output st0 = ao"
    by (simp_all add: st0_def)
  have sound: "list_all sound_future completed"
    unfolding completed_def by (rule completed_sound)
  have run: "process_batch worlds sched rows fs seen0 ao pid = Inr st"
    unfolding st_def st0_def completed_def sub_def by (rule process_batch_unfold [OF assms])
  have q: "queried st = map row_name sub"
    unfolding st_def using f(1) by (simp only: drain_queried [OF sound])
  obtain app where app: "out_csv st = out_csv st0 @ app" "distinct (map row_name app)"
      "set (map row_name app) \<inter> already_output st0 = {}"
    unfolding st_def using drain_output [OF sound, of st0] by blast
  define P where "P = map (\<lambda>f. row_name (fst f)) completed"
  have "ledger_text (progress st) =
          ledger_text (progress st0) @ concat (map (\<lambda>f. entry (row_name (fst f))) completed)"
    unfolding st_def by (rule drain_progress [OF sound])
  also have "concat (map (\<lambda>f. entry (row_name (fst f))) completed) = concat (map entry P)"
    by (simp add: P_def comp_def)
  finally have led: "ledger_text (progress st) = ledger_text (progress_file fs) @ concat (map entry P)"
    using f(3) by simp
  have P: "mset P = mset (map row_name sub)"
    unfolding P_def completed_def by (rule completed_names)
  from run q app led P show ?thesis
    unfolding f sub_def by blast
qed

lemma find_missing_names_run:
  fixes worlds sched reader fs
  defines "q \<equiv> (if reader = [] then []
                  else map row_name
                    (submitted_rows (set (read_progress (ledger_text (progress_file fs)))) reader))"
  shows "\<exists>fs' app P.
           find_missing_names worlds sched reader fs = Inr (fs', q) \<and>
           output_rows fs' = output_rows fs @ app \<and>
           distinct (map row_name app) \<and>
           set (map row_name app) \<inter> set (map row_name (output_rows fs)) = {} \<and>
           ledger_text (progress_file fs') =
             ledger_text (progress_file fs) @ concat (map entry P) \<and>
           mset P = mset q"
proof (cases "reader = []")
  case True
  then have "find_missing_names worlds sched reader fs = Inr (fs, q)"
    by (simp add: find_missing_names_def q_def Let_def)
  moreover have "mset [] = mset q" using True by (simp add: q_def)
  ultimately show ?thesis by (intro exI [of _ fs] exI [of _ "[]"]) simp
next
  case False
  define seen0 where "seen0 = set (read_progress (ledger_text (progress_file fs)))"
  define ao where "ao = set (map row_name (output_rows fs))"
  define fs1 where "fs1 = (if output_csv fs = None then fs\<lparr>output_csv := Some []\<rparr> else fs)"
  define pid where "pid = PIDController_init 5.0 0.5 0.2 0.01"
  have rows1: "output_rows fs1 = output_rows fs"
    by (cases "output_csv fs") (simp_all add: output_rows_def fs1_def)
  have prog1: "progress_file fs1 = progress_file fs" by (simp add: fs1_def)
  have qq: "q = map row_name (submitted_rows seen0 reader)"
    using False by (simp add: q_def seen0_def)
  obtain st app P where st: "process_batch worlds sched reader fs1 seen0 ao pid = Inr st"
    and r: "queried st = q" "out_csv st = output_rows fs1 @ app" "distinct (map row_name app)"
      "set (map row_name app) \<inter> ao = {}"
      "ledger_text (progress st) = ledger_text (progress_file fs1) @ concat (map entry P)"
      "mset P = mset q"
    unfolding qq using process_batch_run [OF False, of worlds sched fs1 seen0 ao pid] by blast
  define fs' where "fs' = \<lparr>progress_file = progress st, output_csv = Some (out_csv st),
                         log_file = Some (out_log st)\<rparr>"
  have "find_missing_names worlds sched reader fs =
          (case process_batch worlds sched reader fs1 seen0 ao pid of
             Inl e \<Rightarrow> Inl e
           | Inr st \<Rightarrow> Inr (\<lparr>progress_file = progress st, output_csv = Some (out_csv st),
                         log_file = Some (out_log st)\<rparr>, queried st))"
    using False unfolding find_missing_names_def seen_at_start already_output_at_start
      seen0_def ao_def fs1_def pid_def Let_def by simp
  then have run: "find_missing_names worlds sched reader fs = Inr (fs', q)"
    by (simp add: st fs'_def r(1))
  have 1: "output_rows fs' = output_rows fs @ app"
    using r(2) rows1 by (simp add: output_rows_def fs'_def)
  have 2: "set (map row_name app) \<inter> set (map row_name (output_rows fs)) = {}"
    using r(4) by (simp add: ao_def)
  have 3: "ledger_text (progress_file fs') = ledger_text (progress_file fs) @ concat (map entry P)"
    using r(5) prog1 by (simp add: fs'_def)
  from run 1 r(3) 2 3 r(6) show ?thesis by blast
qed


lemma file_lines_entry:
  "list_all (\<lambda>c. \<not> is_break c) a \<Longrightarrow>
   file_lines cur (a @ CHR 0x0A # rest) = (cur @ a) # file_lines [] rest"
  by (induction a arbitrary: cur) (simp_all add: is_break_def)

lemma read_progress_entry:
  assumes "ledger_name n"
  shows "read_progress (entry n @ rest) = n # read_progress rest"
proof -
  from assms have nb: "list_all (\<lambda>c. \<not> is_break c) n" and ne: "n \<noteq> []" and st: "stripped n"
    by (simp_all add: ledger_name_def)
  have "file_lines [] (entry n @ rest) = n # file_lines [] rest"
    using file_lines_entry [OF nb, of "[]" rest] by (simp add: entry_def)
  moreover have "strip n = n" using st by (rule stripped_strip)
  ultimately show ?thesis using ne by (simp add: read_progress_def)
qed

lemma read_progress_entries:
  "\<forall>n\<in>set P. ledger_name n \<Longrightarrow> read_progress (concat (map entry P)) = P"
  by (induction P) (simp_all add: read_progress_empty read_progress_entry)

lemma line_count_entry:
  assumes "ledger_name n"
  shows "line_count (entry n @ rest) = Suc (line_count rest)"
proof -
  from assms have "list_all (\<lambda>c. \<not> is_break c) n" by (simp add: ledger_name_def)
  then have "filter (\<lambda>c. c = CHR 0x0A) n = []"
    by (induction n) (simp_all add: is_break_def)
  then show ?thesis by (simp add: line_count_def entry_def)
qed

lemma line_count_entries:
  "\<forall>n\<in>set P. ledger_name n \<Longrightarrow> line_count (concat (map entry P)) = length P"
proof (induction P)
  case Nil
  show ?case by (simp add: line_count_def)
next
  case (Cons n P)
  then show ?case by (simp add: line_count_entry)
qed

lemma submitted_rows_names:
  "set (map row_name (submitted_rows seen0 rows)) \<subseteq> set (map row_name rows) - seen0"
  by (auto simp: submitted_rows_def)

lemma submitted_rows_distinct:
  "distinct (map row_name rows) \<Longrightarrow> distinct (map row_name (submitted_rows seen0 rows))"
  by (simp add: submitted_rows_def distinct_map_filter)

lemma resumed_runs_ledger:
  assumes "ledger_text (progress_file fs) = concat (map entry P0)"
    and "\<forall>n\<in>set P0. ledger_name n"
    and "\<forall>r\<in>set runs. \<forall>x\<in>set (run_input r). ledger_name (row_name x)"
  shows "\<exists>fs' q P.
           resumed_runs fs runs = Inr (fs', q) \<and>
           ledger_text (progress_file fs') = concat (map entry (P0 @ P)) \<and>
           mset P = mset q \<and>
           set q \<inter> set P0 = {} \<and>
           (\<forall>n\<in>set q. ledger_name n) \<and>
           ((\<forall>r\<in>set runs. distinct (map row_name (run_input r))) \<longrightarrow> distinct q)"
  using assms
proof (induction runs arbitrary: fs P0)
  case Nil
  then show ?case by simp
next
  case (Cons r runs)
  define q1 where "q1 = (if run_input r = [] then []
                  else map row_name
                    (submitted_rows (set (read_progress (ledger_text (progress_file fs)))) (run_input r)))"
  have seen: "set (read_progress (ledger_text (progress_file fs))) = set P0"
    using Cons.prems(1,2) by (simp add: read_progress_entries)
  have q1_sub: "set q1 \<subseteq> set (map row_name (run_input r)) - set P0"
    using submitted_rows_names [of "set P0" "run_input r"] by (auto simp: q1_def seen)
  have q1_names: "\<forall>n\<in>set q1. ledger_name n"
    using q1_sub Cons.prems(3) by auto
  have q1_dist: "distinct (map row_name (run_input r)) \<Longrightarrow> distinct q1"
    by (simp add: q1_def submitted_rows_distinct)
  obtain fs1 P1 where 1:
      "find_missing_names (run_worlds r) (run_sched r) (run_input r) fs = Inr (fs1, q1)"
      "ledger_text (progress_file fs1) = ledger_text (progress_file fs) @ concat (map entry P1)"
      "mset P1 = mset q1"
    using find_missing_names_run [of "run_worlds r" "run_sched r" "run_input r" fs]
    unfolding q1_def by blast
  have P1_set: "set P1 = set q1" using 1(3) by (rule mset_eq_setD)
  have t1: "ledger_text (progress_file fs1) = concat (map entry (P0 @ P1))"
    using 1(2) Cons.prems(1) by simp
  have n1: "\<forall>n\<in>set (P0 @ P1). ledger_name n"
    using Cons.prems(2) q1_names P1_set by auto
  have r1: "\<forall>r\<in>set runs. \<forall>x\<in>set (run_input r). ledger_name (row_name x)"
    using Cons.prems(3) by simp
  obtain fs2 q2 P2 where 2: "resumed_runs fs1 runs = Inr (fs2, q2)"
      "ledger_text (progress_file fs2) = concat (map entry ((P0 @ P1) @ P2))"
      "mset P2 = mset q2" "set q2 \<inter> set (P0 @ P1) = {}" "\<forall>n\<in>set q2. ledger_name n"
      "(\<forall>r\<in>set runs. distinct (map row_name (run_input r))) \<longrightarrow> distinct q2"
    using Cons.IH [OF t1 n1 r1] by blast
  have a: "resumed_runs fs (r # runs) = Inr (fs2, q1 @ q2)" by (simp add: 1(1) 2(1))
  have b: "ledger_text (progress_file fs2) = concat (map entry (P0 @ (P1 @ P2)))"
    using 2(2) by simp
  have c: "mset (P1 @ P2) = mset (q1 @ q2)" using 1(3) 2(3) by simp
  have d: "set (q1 @ q2) \<inter> set P0 = {}" using q1_sub 2(4) by auto
  have e: "\<forall>n\<in>set (q1 @ q2). ledger_name n" using q1_names 2(5) by auto
  have f: "(\<forall>r\<in>set (r # runs). distinct (map row_name (run_input r))) \<longrightarrow> distinct (q1 @ q2)"
    using q1_dist 2(6) 2(4) P1_set by auto
  from a b c d e f show ?case by blast
qed

section \<open>Claims about the runs\<close>

text \<open>
  C1: a name that is in the progress set when \<open>process_batch\<close> builds its futures is
  not handed to \<open>dblp_author_search\<close>: the names queried are those of the rows the
  filter keeps, in order, and none of them is in the set; the entries the run adds to
  the ledger are those names, in the order of completion. For a whole run, the set is
  what \<open>find_missing_names\<close> reads from the progress ledger at its start: no name read
  from the ledger is queried in that run.
\<close>

theorem seen_names_not_queried:
  "(rows \<noteq> [] \<longrightarrow>
      (\<exists>st P. process_batch worlds sched rows fs seen0 ao pid = Inr st \<and>
            queried st = map row_name (filter (\<lambda>row. row_name row \<notin> seen0) rows) \<and>
            set (queried st) \<inter> seen0 = {} \<and>
            ledger_text (progress st) = ledger_text (progress_file fs) @ concat (map entry P) \<and>
            mset P = mset (queried st))) \<and>
   (\<exists>fs' q P. find_missing_names worlds sched rows fs = Inr (fs', q) \<and>
            set q \<inter> (case progress_file fs of None \<Rightarrow> {} | Some t \<Rightarrow> set (read_progress t)) = {} \<and>
            ledger_text (progress_file fs') = ledger_text (progress_file fs) @ concat (map entry P) \<and>
            mset P = mset q)"
proof (intro conjI impI)
  assume ne: "rows \<noteq> []"
  obtain st P where st: "process_batch worlds sched rows fs seen0 ao pid = Inr st"
    and q: "queried st = map row_name (submitted_rows seen0 rows)"
    and P: "ledger_text (progress st) = ledger_text (progress_file fs) @ concat (map entry P)"
      "mset P = mset (map row_name (submitted_rows seen0 rows))"
    using process_batch_run [OF ne, of worlds sched fs seen0 ao pid] by blast
  have d: "set (queried st) \<inter> seen0 = {}"
    using submitted_rows_names [of seen0 rows] unfolding q by blast
  have q': "queried st = map row_name (filter (\<lambda>row. row_name row \<notin> seen0) rows)"
    using q by (simp add: submitted_rows_def)
  have P': "mset P = mset (queried st)" using P(2) q by simp
  from st q' d P(1) P' show "\<exists>st P. process_batch worlds sched rows fs seen0 ao pid = Inr st \<and>
            queried st = map row_name (filter (\<lambda>row. row_name row \<notin> seen0) rows) \<and>
            set (queried st) \<inter> seen0 = {} \<and>
            ledger_text (progress st) = ledger_text (progress_file fs) @ concat (map entry P) \<and>
            mset P = mset (queried st)"
    by blast
next
  let ?seen = "set (read_progress (ledger_text (progress_file fs)))"
  define q where "q = (if rows = [] then [] else map row_name (submitted_rows ?seen rows))"
  obtain fs' P where run: "find_missing_names worlds sched rows fs = Inr (fs', q)"
    and P: "ledger_text (progress_file fs') = ledger_text (progress_file fs) @ concat (map entry P)"
      "mset P = mset q"
    using find_missing_names_run [of worlds sched rows fs] unfolding q_def by blast
  have "set q \<inter> ?seen = {}"
    using submitted_rows_names [of ?seen rows] unfolding q_def by auto
  with run P show "\<exists>fs' q P. find_missing_names worlds sched rows fs = Inr (fs', q) \<and>
            set q \<inter> (case progress_file fs of None \<Rightarrow> {} | Some t \<Rightarrow> set (read_progress t)) = {} \<and>
            ledger_text (progress_file fs') = ledger_text (progress_file fs) @ concat (map entry P) \<and>
            mset P = mset q"
    unfolding seen_at_start by blast
qed

theorem seen_names_not_queried_witness:
  "[named ''Alice Smith'', named ''Bob Jones''] \<noteq> [] \<and>
   (\<exists>st. process_batch (always no_hits) [] [named ''Alice Smith'', named ''Bob Jones''] no_files
            {''Alice Smith''} {} (PIDController_init 5.0 0.5 0.2 0.01) = Inr st \<and>
         queried st = [''Bob Jones''] \<and> set (queried st) \<inter> {''Alice Smith''} = {})"
proof -
  have ne: "[named ''Alice Smith'', named ''Bob Jones''] \<noteq> []" by simp
  have f: "map row_name (filter (\<lambda>row. row_name row \<notin> {''Alice Smith''})
             [named ''Alice Smith'', named ''Bob Jones'']) = [''Bob Jones'']"
    by (simp add: named_def)
  from seen_names_not_queried [of "[named ''Alice Smith'', named ''Bob Jones'']"
      "always no_hits" "[]" no_files "{''Alice Smith''}" "{}" "PIDController_init 5.0 0.5 0.2 0.01"] ne
  show ?thesis unfolding f by blast
qed



text \<open>
  C9, as the spec states it: the number of lines of the progress ledger equals the
  number of distinct names attempted, for every input. The filter against the progress
  set runs once, before any result is handled, so a name that stands in two rows of
  the input is submitted twice and written to the ledger twice: two lines, one name.
\<close>

theorem progress_lines_counterexample:
  "find_missing_names (always offline) [] [named ''A'', named ''A''] no_files =
     Inr (\<lparr>progress_file = Some (entry ''A'' @ entry ''A''), output_csv = Some [],
           log_file = Some [''A -> ERROR'', ''A -> ERROR'']\<rparr>, [''A'', ''A'']) \<and>
   line_count (entry ''A'' @ entry ''A'') = 2 \<and>
   card (set [''A'', ''A'']) = 1"
proof -
  have "find_missing_names (always offline) [] [named ''A'', named ''A''] no_files =
     Inr (\<lparr>progress_file = Some (entry ''A'' @ entry ''A''), output_csv = Some [],
           log_file = Some [''A -> ERROR'', ''A -> ERROR'']\<rparr>, [''A'', ''A''])"
    by code_simp
  moreover have "line_count (entry ''A'' @ entry ''A'') = 2" by code_simp
  moreover have "card (set [''A'', ''A'']) = 1" by simp
  ultimately show ?thesis by blast
qed

text \<open>
  C9, amended: over resumed runs that start without a progress ledger, when every
  input name is one the ledger gives back as written (\<open>ledger_name\<close>), the ledger has
  one line for each classification attempt; when moreover no input has the same name
  in two rows, no name is attempted twice over all the runs, and the number of lines
  is the number of distinct names attempted.
\<close>

theorem progress_lines_amended:
  assumes "progress_file fs = None"
    and "\<forall>r\<in>set runs. \<forall>x\<in>set (run_input r). ledger_name (row_name x)"
  shows "\<exists>fs' q.
           resumed_runs fs runs = Inr (fs', q) \<and>
           line_count (ledger_text (progress_file fs')) = length q \<and>
           ((\<forall>r\<in>set runs. distinct (map row_name (run_input r))) \<longrightarrow>
              distinct q \<and> line_count (ledger_text (progress_file fs')) = card (set q))"
proof -
  have t0: "ledger_text (progress_file fs) = concat (map entry [])"
    using assms(1) by (simp add: ledger_text_def)
  have n0: "\<forall>n\<in>set []. ledger_name n" by simp
  obtain fs' q P where r: "resumed_runs fs runs = Inr (fs', q)"
      "ledger_text (progress_file fs') = concat (map entry ([] @ P))"
      "mset P = mset q" "\<forall>n\<in>set q. ledger_name n"
      "(\<forall>r\<in>set runs. distinct (map row_name (run_input r))) \<longrightarrow> distinct q"
    using resumed_runs_ledger [OF t0 n0 assms(2)] by blast
  have "set P = set q" using r(3) by (rule mset_eq_setD)
  with r(4) have "\<forall>n\<in>set P. ledger_name n" by simp
  then have "line_count (ledger_text (progress_file fs')) = length P"
    using r(2) by (simp add: line_count_entries)
  also have "length P = length q" using r(3) by (rule mset_eq_length)
  finally have lc: "line_count (ledger_text (progress_file fs')) = length q" .
  have "distinct q \<and> line_count (ledger_text (progress_file fs')) = card (set q)"
    if "\<forall>r\<in>set runs. distinct (map row_name (run_input r))"
    using that r(5) lc by (simp add: distinct_card)
  with r(1) lc show ?thesis by blast
qed

theorem progress_lines_amended_witness:
  "progress_file no_files = None \<and>
   (\<exists>fs' q.
      resumed_runs no_files [first_run, second_run] = Inr (fs', q) \<and>
      q = [''Alice Smith'', ''Bob Jones'', ''Carol Lee''] \<and>
      progress_file fs' = Some (entry ''Bob Jones'' @ entry ''Alice Smith'' @ entry ''Carol Lee'') \<and>
      distinct q \<and> line_count (ledger_text (progress_file fs')) = 3)"
proof -
  have 0: "progress_file no_files = None" by (simp add: no_files_def)
  have n: "ledger_name ''Alice Smith''" "ledger_name ''Bob Jones''" "ledger_name ''Carol Lee''"
    by code_simp+
  have 1: "\<forall>r\<in>set [first_run, second_run]. \<forall>x\<in>set (run_input r). ledger_name (row_name x)"
    using n by (simp add: first_run_def second_run_def named_def)
  have 2: "\<forall>r\<in>set [first_run, second_run]. distinct (map row_name (run_input r))"
    by (simp add: first_run_def second_run_def named_def)
  have e: "resumed_runs no_files [first_run, second_run] =
          Inr (\<lparr>progress_file = Some (entry ''Bob Jones'' @ entry ''Alice Smith'' @ entry ''Carol Lee''),
                output_csv = Some [named ''Carol Lee''],
                log_file = Some [''Bob Jones -> ERROR'', ''Alice Smith -> ERROR'',
                                 ''Carol Lee -> NOT_FOUND'']\<rparr>,
               [''Alice Smith'', ''Bob Jones'', ''Carol Lee''])"
    by code_simp
  obtain fs' q where r: "resumed_runs no_files [first_run, second_run] = Inr (fs', q)"
      "line_count (ledger_text (progress_file fs')) = length q" "distinct q"
    using progress_lines_amended [OF 0 1] 2 by blast
  from r(1) e have q: "q = [''Alice Smith'', ''Bob Jones'', ''Carol Lee'']"
    and p: "progress_file fs' = Some (entry ''Bob Jones'' @ entry ''Alice Smith'' @ entry ''Carol Lee'')"
    by simp_all
  from r(2) q have "line_count (ledger_text (progress_file fs')) = 3" by simp
  with 0 r(1) q p r(3) show ?thesis by blast
qed

end
